theory Spec2Isabelle
  imports Main
begin

section \<open>The asynchronous rotating file logger\<close>

text \<open>
  The development models \<^verbatim>\<open>AsyncFileLogger\<close> of the listing \<^verbatim>\<open>logging_threadsafe.cpp\<close>
  (in \<^verbatim>\<open>Thread pool.cpp\<close> and in the design notes of the repository): producers call
  \<^verbatim>\<open>log\<close>, one background thread executes \<^verbatim>\<open>run\<close>, the destructor stops and joins it. Threads are interleaved at the granularity of the critical sections of
  \<^verbatim>\<open>queue_mtx\<close>: every step below is either one critical section or the unlocked file
  I/O of the worker, which touches only members that no other thread uses.
\<close>

subsection \<open>Items, the output stream and the disk\<close>

text \<open>\<^verbatim>\<open>struct Item { std::string message; time_point ts; }\<close>; a time point is a tick count.\<close>

record Item =
  message :: string
  ts :: int

text \<open>
  The disk is the sequence of blocks appended to files, oldest first. Every file is opened
  with \<^verbatim>\<open>std::ios::app\<close>, so appending is the only operation; opening a file leaves an
  empty block, which records that the file exists.
\<close>

type_synonym disk = "(string \<times> string) list"

definition file_content :: "disk \<Rightarrow> string \<Rightarrow> string" where
  "file_content d n = concat (map snd (filter (\<lambda>b. fst b = n) d))"

definition persisted :: "disk \<Rightarrow> string" where
  "persisted d = concat (map snd d)"

text \<open>
  \<^verbatim>\<open>std::ofstream\<close>: whether a file is associated, whether failbit or badbit is set, the
  file's name, and the characters inserted but not yet handed to the disk. The buffer is
  taken to reach the disk at \<^verbatim>\<open>flush\<close> and \<^verbatim>\<open>close\<close> only, which delays data the longest;
  that write can fail. A write puts the whole buffer on the disk or nothing of it.
\<close>

record ofstream =
  is_open :: bool
  failed :: bool
  path :: string
  pending :: string

definition fresh_ofstream :: ofstream where
  "fresh_ofstream = \<lparr>is_open = False, failed = False, path = [], pending = []\<rparr>"

text \<open>\<^verbatim>\<open>open(name, std::ios::app)\<close>; \<open>ok\<close> is the operating system's answer. Opening an
  open stream fails; success clears the error state.\<close>

definition ofstream_open :: "string \<Rightarrow> bool \<Rightarrow> ofstream \<times> disk \<Rightarrow> ofstream \<times> disk" where
  "ofstream_open name ok fd =
     (case fd of (f, d) \<Rightarrow>
        if is_open f \<or> \<not> ok then (f\<lparr>failed := True\<rparr>, d)
        else (f\<lparr>is_open := True, failed := False, path := name\<rparr>, d @ [(name, [])]))"

text \<open>\<^verbatim>\<open>flush()\<close> and \<^verbatim>\<open>close()\<close>; \<open>ok\<close> is the operating system's answer to the write
  of the buffer. A failed write sets an error bit. After a failed \<^verbatim>\<open>flush\<close> the characters
  stay in the buffer; \<^verbatim>\<open>close\<close> gives the file up whether its write succeeds or not, so
  after a failed \<^verbatim>\<open>close\<close> the buffered characters are lost. \<^verbatim>\<open>close\<close> on a stream that is
  not open fails.\<close>

definition ofstream_flush :: "bool \<Rightarrow> ofstream \<times> disk \<Rightarrow> ofstream \<times> disk" where
  "ofstream_flush ok fd =
     (case fd of (f, d) \<Rightarrow>
        if is_open f then
          (if ok then (f\<lparr>pending := []\<rparr>, d @ [(path f, pending f)])
           else (f\<lparr>failed := True\<rparr>, d))
        else (f, d))"

definition ofstream_close :: "bool \<Rightarrow> ofstream \<times> disk \<Rightarrow> ofstream \<times> disk" where
  "ofstream_close ok fd =
     (case fd of (f, d) \<Rightarrow>
        if is_open f then
          (if ok then (f\<lparr>is_open := False, pending := []\<rparr>, d @ [(path f, pending f)])
           else (f\<lparr>is_open := False, failed := True, pending := []\<rparr>, d))
        else (f\<lparr>failed := True\<rparr>, d))"

text \<open>\<^verbatim>\<open>outFile << ...\<close>: a stream that is closed or in an error state accepts nothing;
  \<open>ok\<close> tells whether the insertion itself succeeds.\<close>

definition ofstream_put :: "string \<Rightarrow> bool \<Rightarrow> ofstream \<Rightarrow> ofstream" where
  "ofstream_put txt ok f =
     (if is_open f \<and> \<not> failed f \<and> ok then f\<lparr>pending := pending f @ txt\<rparr>
      else f\<lparr>failed := True\<rparr>)"

subsection \<open>The rotation policy\<close>

text \<open>
  \<^verbatim>\<open>class RotationPolicy\<close> has two virtual methods; both may read the clock and change the
  policy object. \<open>'p\<close> is the state of the policy object.
\<close>

record 'p RotationPolicy =
  shouldRotate :: "int \<Rightarrow> 'p \<Rightarrow> bool \<times> 'p"
  nextFileName :: "int \<Rightarrow> 'p \<Rightarrow> string \<times> 'p"

text \<open>
  Durations and time points are 64-bit signed counts; arithmetic on them wraps around.
\<close>

definition wrap64 :: "int \<Rightarrow> int" where
  "wrap64 x = (x + 9223372036854775808) mod 18446744073709551616 - 9223372036854775808"

text \<open>\<^verbatim>\<open>TimeBasedRotationPolicy\<close>: its members (\<open>interval\<close> in seconds, \<open>lastRotation\<close> in
  ticks of the system clock), its constructor (\<open>now\<close> is the clock at construction) and
  its two methods. The comparison \<^verbatim>\<open>now - lastRotation >= interval\<close> converts the seconds
  to ticks; \<open>tps\<close> is the number of ticks per second of \<^verbatim>\<open>system_clock\<close>. \<open>nf\<close> stands for
  \<^verbatim>\<open>strftime(buf, sizeof(buf), "log_%Y%m%d_%H%M%S.txt", &tm)\<close>.\<close>

record TimeBased =
  interval :: int
  lastRotation :: int

definition TimeBased_ctor :: "int \<Rightarrow> int \<Rightarrow> TimeBased" where
  "TimeBased_ctor secs now = \<lparr>interval = wrap64 secs, lastRotation = wrap64 now\<rparr>"

definition TimeBasedRotationPolicy :: "int \<Rightarrow> (int \<Rightarrow> string) \<Rightarrow> TimeBased RotationPolicy" where
  "TimeBasedRotationPolicy tps nf =
     \<lparr>shouldRotate = (\<lambda>now p.
         if wrap64 (wrap64 now - lastRotation p) \<ge> wrap64 (interval p * tps)
         then (True, p\<lparr>lastRotation := wrap64 now\<rparr>)
         else (False, p)),
      nextFileName = (\<lambda>now p. (nf now, p))\<rparr>"

subsection \<open>The logger and the threads around it\<close>

text \<open>Where the worker thread stands in \<^verbatim>\<open>run\<close>, and the destructor in its body.\<close>

datatype worker_pc =
    W_top           \<comment> \<open>before \<^verbatim>\<open>unique_lock lk(queue_mtx); queue_cv.wait(lk, ...)\<close>\<close>
  | W_blocked       \<comment> \<open>asleep inside \<^verbatim>\<open>queue_cv.wait\<close>\<close>
  | W_io Item       \<comment> \<open>after \<^verbatim>\<open>lk.unlock()\<close>, holding the popped item\<close>
  | W_relock        \<comment> \<open>before \<^verbatim>\<open>lk.lock()\<close> at the end of the inner loop\<close>
  | W_done          \<comment> \<open>\<^verbatim>\<open>run\<close> has returned\<close>

datatype dtor_pc = D_alive | D_stopped | D_notified | D_joined

text \<open>
  The members of \<^verbatim>\<open>AsyncFileLogger\<close>: \<open>rotationPolicy\<close> is the state of the policy
  object, \<open>worker\<close> the position of the thread, \<open>notified\<close> the number of calls of
  \<^verbatim>\<open>queue_cv.notify_one()\<close>, and \<open>maxQueueSize\<close> the member that the source initialises
  to 10000 and never changes. Then the destructor's position and two parts of the
  process's environment: the disk, and what the process has written to \<^verbatim>\<open>std::cout\<close> and
  \<^verbatim>\<open>std::cerr\<close> since the logger was constructed.
\<close>

record 'p AsyncFileLogger =
  rotationPolicy :: 'p
  outFile :: ofstream
  currentFile :: string
  q :: "Item list"
  stopping :: bool
  worker :: worker_pc
  notified :: nat
  maxQueueSize :: nat
  dtor :: dtor_pc
  disk :: disk
  std_streams :: string

text \<open>What the environment answers during one step of the worker: the clock, which files
  can be opened, whether an insertion succeeds, and whether the write of the buffer
  succeeds at \<^verbatim>\<open>flush\<close> and at \<^verbatim>\<open>close\<close>.\<close>

record io_env =
  now :: int
  can_open :: "string \<Rightarrow> bool"
  wr_ok :: bool
  flush_ok :: bool
  close_ok :: bool

definition notify_one :: "'p AsyncFileLogger \<Rightarrow> 'p AsyncFileLogger" where
  "notify_one s =
     s\<lparr>notified := notified s + 1,
       worker := (if worker s = W_blocked then W_top else worker s)\<rparr>"

text \<open>The constructor: it starts the worker thread, which stands at the top of \<^verbatim>\<open>run\<close>,
  asks the policy for the first file name and opens the file.\<close>

definition AsyncFileLogger_ctor ::
    "'p RotationPolicy \<Rightarrow> 'p \<Rightarrow> io_env \<Rightarrow> disk \<Rightarrow> 'p AsyncFileLogger" where
  "AsyncFileLogger_ctor P policy env d0 =
     (case nextFileName P (now env) policy of (name, p') \<Rightarrow>
      case ofstream_open name (can_open env name) (fresh_ofstream, d0) of (f, d) \<Rightarrow>
        \<lparr>rotationPolicy = p', outFile = f, currentFile = name, q = [], stopping = False,
         worker = W_top, notified = 0, maxQueueSize = 10000, dtor = D_alive,
         disk = d, std_streams = []\<rparr>)"

text \<open>\<^verbatim>\<open>void log(const std::string& msg)\<close>, one critical section; \<open>t\<close> is
  \<^verbatim>\<open>system_clock::now()\<close>. The function returns nothing, on either path.\<close>

definition log :: "string \<Rightarrow> int \<Rightarrow> 'p AsyncFileLogger \<Rightarrow> unit \<times> 'p AsyncFileLogger" where
  "log msg t s =
     (if length (q s) \<ge> maxQueueSize s then ((), s)
      else ((), notify_one (s\<lparr>q := q s @ [\<lparr>message = msg, ts = t\<rparr>]\<rparr>)))"

definition rotateNow :: "'p RotationPolicy \<Rightarrow> io_env \<Rightarrow> 'p AsyncFileLogger \<Rightarrow> 'p AsyncFileLogger" where
  "rotateNow P env s =
     (case (if is_open (outFile s) then ofstream_close (close_ok env) (outFile s, disk s)
            else (outFile s, disk s)) of (f1, d1) \<Rightarrow>
      case nextFileName P (now env) (rotationPolicy s) of (name, p') \<Rightarrow>
      case ofstream_open name (can_open env name) (f1, d1) of (f2, d2) \<Rightarrow>
        s\<lparr>rotationPolicy := p', currentFile := name, outFile := f2, disk := d2\<rparr>)"

text \<open>The line written for an item; \<open>tf\<close> stands for
  \<^verbatim>\<open>localtime_r\<close> and \<^verbatim>\<open>strftime(timebuf, sizeof(timebuf), "%Y-%m-%d %H:%M:%S", &tm)\<close>.\<close>

definition format_record :: "(int \<Rightarrow> string) \<Rightarrow> Item \<Rightarrow> string" where
  "format_record tf it = ''['' @ tf (ts it) @ ''] '' @ message it @ [CHR 0x0A]"

text \<open>The unlocked part of the inner loop of \<^verbatim>\<open>run\<close>, from the rotation decision to the
  insertion.\<close>

definition run_io ::
    "'p RotationPolicy \<Rightarrow> (int \<Rightarrow> string) \<Rightarrow> io_env \<Rightarrow> Item \<Rightarrow> 'p AsyncFileLogger \<Rightarrow> 'p AsyncFileLogger" where
  "run_io P tf env it s =
     (case shouldRotate P (now env) (rotationPolicy s) of (r, p') \<Rightarrow>
        let s1 = s\<lparr>rotationPolicy := p'\<rparr>;
            s2 = (if r then rotateNow P env s1 else s1);
            s3 = (if \<not> is_open (outFile s2) then rotateNow P env s2 else s2)
        in s3\<lparr>outFile := ofstream_put (format_record tf it) (wr_ok env) (outFile s3)\<rparr>)"

text \<open>The exit of \<^verbatim>\<open>run\<close>: flush and close the file if it is open; the results are not
  tested.\<close>

definition run_exit :: "io_env \<Rightarrow> 'p AsyncFileLogger \<Rightarrow> 'p AsyncFileLogger" where
  "run_exit env s =
     (case (if is_open (outFile s)
            then ofstream_close (close_ok env) (ofstream_flush (flush_ok env) (outFile s, disk s))
            else (outFile s, disk s)) of (f, d) \<Rightarrow>
        s\<lparr>outFile := f, disk := d, worker := W_done\<rparr>)"

text \<open>With the lock held: the test of the inner loop, then the test for the exit, then the
  end of the outer loop's body.\<close>

definition run_locked :: "io_env \<Rightarrow> 'p AsyncFileLogger \<Rightarrow> 'p AsyncFileLogger" where
  "run_locked env s =
     (case q s of
        it # rest \<Rightarrow> s\<lparr>q := rest, worker := W_io it\<rparr>
      | [] \<Rightarrow> if stopping s then run_exit env s else s\<lparr>worker := W_top\<rparr>)"

text \<open>The next step of the worker thread; a sleeping or finished worker has none.\<close>

definition run_step ::
    "'p RotationPolicy \<Rightarrow> (int \<Rightarrow> string) \<Rightarrow> io_env \<Rightarrow> 'p AsyncFileLogger \<Rightarrow> 'p AsyncFileLogger option" where
  "run_step P tf env s =
     (case worker s of
        W_top \<Rightarrow> Some (if stopping s \<or> q s \<noteq> [] then run_locked env s else s\<lparr>worker := W_blocked\<rparr>)
      | W_blocked \<Rightarrow> None
      | W_io it \<Rightarrow> Some ((run_io P tf env it s)\<lparr>worker := W_relock\<rparr>)
      | W_relock \<Rightarrow> Some (run_locked env s)
      | W_done \<Rightarrow> None)"

text \<open>The next step of \<^verbatim>\<open>~AsyncFileLogger\<close>: set the flag under the lock, notify, join.\<close>

definition dtor_step :: "'p AsyncFileLogger \<Rightarrow> 'p AsyncFileLogger option" where
  "dtor_step s =
     (case dtor s of
        D_alive \<Rightarrow> Some (s\<lparr>stopping := True, dtor := D_stopped\<rparr>)
      | D_stopped \<Rightarrow> Some ((notify_one s)\<lparr>dtor := D_notified\<rparr>)
      | D_notified \<Rightarrow> if worker s = W_done then Some (s\<lparr>dtor := D_joined\<rparr>) else None
      | D_joined \<Rightarrow> None)"

text \<open>
  A schedule is a list of events: a producer calls \<^verbatim>\<open>log\<close>, the worker takes its next
  step, the condition variable wakes the worker spuriously, the destructor takes its next
  step. No member function is called on a destroyed object.
\<close>

datatype event = Log string int | Work io_env | Spurious | Dtor

definition step ::
    "'p RotationPolicy \<Rightarrow> (int \<Rightarrow> string) \<Rightarrow> event \<Rightarrow> 'p AsyncFileLogger \<Rightarrow> 'p AsyncFileLogger option" where
  "step P tf e s =
     (case e of
        Log msg t \<Rightarrow> if dtor s = D_joined then None else Some (snd (log msg t s))
      | Work env \<Rightarrow> run_step P tf env s
      | Spurious \<Rightarrow> if worker s = W_blocked then Some (s\<lparr>worker := W_top\<rparr>) else None
      | Dtor \<Rightarrow> dtor_step s)"

fun exec ::
    "'p RotationPolicy \<Rightarrow> (int \<Rightarrow> string) \<Rightarrow> event list \<Rightarrow> 'p AsyncFileLogger \<Rightarrow> 'p AsyncFileLogger option" where
  "exec P tf [] s = Some s"
| "exec P tf (e # es) s = (case step P tf e s of None \<Rightarrow> None | Some s' \<Rightarrow> exec P tf es s')"

subsection \<open>What a schedule submits and what the worker handles\<close>

text \<open>The items the worker still has to handle: the one it holds, then the queue.\<close>

definition outstanding :: "'p AsyncFileLogger \<Rightarrow> Item list" where
  "outstanding s = (case worker s of W_io it \<Rightarrow> [it] | _ \<Rightarrow> []) @ q s"

text \<open>The item an event enqueues, and the item an event hands to the insertion
  statement of \<^verbatim>\<open>run\<close>; then the same along a schedule.\<close>

definition enqueued1 :: "event \<Rightarrow> 'p AsyncFileLogger \<Rightarrow> Item list" where
  "enqueued1 e s =
     (case e of
        Log msg t \<Rightarrow>
          if dtor s \<noteq> D_joined \<and> length (q s) < maxQueueSize s then [\<lparr>message = msg, ts = t\<rparr>]
          else []
      | _ \<Rightarrow> [])"

definition processed1 :: "event \<Rightarrow> 'p AsyncFileLogger \<Rightarrow> Item list" where
  "processed1 e s =
     (case e of
        Work env \<Rightarrow> (case worker s of W_io it \<Rightarrow> [it] | _ \<Rightarrow> [])
      | _ \<Rightarrow> [])"

fun enqueued ::
    "'p RotationPolicy \<Rightarrow> (int \<Rightarrow> string) \<Rightarrow> event list \<Rightarrow> 'p AsyncFileLogger \<Rightarrow> Item list" where
  "enqueued P tf [] s = []"
| "enqueued P tf (e # es) s =
     enqueued1 e s @ (case step P tf e s of None \<Rightarrow> [] | Some s' \<Rightarrow> enqueued P tf es s')"

fun processed ::
    "'p RotationPolicy \<Rightarrow> (int \<Rightarrow> string) \<Rightarrow> event list \<Rightarrow> 'p AsyncFileLogger \<Rightarrow> Item list" where
  "processed P tf [] s = []"
| "processed P tf (e # es) s =
     processed1 e s @ (case step P tf e s of None \<Rightarrow> [] | Some s' \<Rightarrow> processed P tf es s')"

text \<open>The items of all calls of \<^verbatim>\<open>log\<close> in a schedule, accepted or not.\<close>

fun logged :: "event list \<Rightarrow> Item list" where
  "logged [] = []"
| "logged (Log msg t # es) = \<lparr>message = msg, ts = t\<rparr> # logged es"
| "logged (e # es) = logged es"

text \<open>A working sink: every file can be opened, every insertion succeeds and every write
  of the buffer at \<^verbatim>\<open>flush\<close> and \<^verbatim>\<open>close\<close> succeeds.\<close>

definition env_ok :: "io_env \<Rightarrow> bool" where
  "env_ok env = (wr_ok env \<and> flush_ok env \<and> close_ok env \<and> (\<forall>n. can_open env n))"

fun sink_ok :: "event \<Rightarrow> bool" where
  "sink_ok (Work env) = env_ok env"
| "sink_ok _ = True"

text \<open>Everything inserted so far and not lost: the disk, then the stream's buffer.\<close>

definition sink_text :: "'p AsyncFileLogger \<Rightarrow> string" where
  "sink_text s = persisted (disk s) @ pending (outFile s)"

definition records :: "(int \<Rightarrow> string) \<Rightarrow> Item list \<Rightarrow> string" where
  "records tf items = concat (map (format_record tf) items)"

text \<open>Invariants: a stream that is open has no error bit set; a closed stream has an
  empty buffer, the worker returns only after \<open>stopping\<close> was set and has closed the
  stream, \<open>stopping\<close> is set exactly from the destructor's first step on, the destructor
  returns only after the worker, and the worker sleeps only while the queue is empty and
  no notification for \<open>stopping\<close> is due.\<close>

definition healthy :: "ofstream \<Rightarrow> bool" where
  "healthy f = (is_open f \<longrightarrow> \<not> failed f)"

definition coherent :: "'p AsyncFileLogger \<Rightarrow> bool" where
  "coherent s \<longleftrightarrow>
     (\<not> is_open (outFile s) \<longrightarrow> pending (outFile s) = []) \<and>
     (worker s = W_done \<longrightarrow> stopping s \<and> \<not> is_open (outFile s)) \<and>
     (stopping s \<longleftrightarrow> dtor s \<noteq> D_alive) \<and>
     (dtor s = D_joined \<longrightarrow> worker s = W_done) \<and>
     (worker s = W_blocked \<longrightarrow> q s = [] \<and> (stopping s \<longrightarrow> dtor s = D_stopped))"

subsection \<open>Example runs\<close>

text \<open>A policy object with a fixed file name on a clock of 1000000000 ticks per second,
  a clock formatter, and environments in which the sink works, in which no file can be
  opened, and in which the write of the buffer fails.\<close>

definition demo_policy :: "TimeBased RotationPolicy" where
  "demo_policy = TimeBasedRotationPolicy 1000000000 (\<lambda>t. ''log.txt'')"

definition demo_state :: TimeBased where
  "demo_state = TimeBased_ctor 5 0"

definition demo_time :: "int \<Rightarrow> string" where
  "demo_time t = (if t = 1 then ''01'' else if t = 2 then ''02'' else ''03'')"

definition good :: "int \<Rightarrow> io_env" where
  "good t = \<lparr>now = t, can_open = (\<lambda>n. True), wr_ok = True, flush_ok = True, close_ok = True\<rparr>"

definition broken :: "int \<Rightarrow> io_env" where
  "broken t = \<lparr>now = t, can_open = (\<lambda>n. False), wr_ok = True, flush_ok = True, close_ok = True\<rparr>"

definition full_disk :: "int \<Rightarrow> io_env" where
  "full_disk t = \<lparr>now = t, can_open = (\<lambda>n. True), wr_ok = True, flush_ok = False, close_ok = False\<rparr>"

text \<open>A logger whose queue holds at most two items, on an empty disk.\<close>

definition small_logger :: "TimeBased AsyncFileLogger" where
  "small_logger = (AsyncFileLogger_ctor demo_policy demo_state (good 0) [])\<lparr>maxQueueSize := 2\<rparr>"

text \<open>Scenario A: three submissions while the worker does not run, then the worker
  drains the queue and the logger is destroyed.\<close>

definition scenario_A_submit :: "event list" where
  "scenario_A_submit = [Log ''a'' 1, Log ''b'' 2, Log ''c'' 3]"

definition scenario_A_drain :: "event list" where
  "scenario_A_drain = [Work (good 3), Work (good 3), Work (good 3), Work (good 3), Work (good 3)]"

definition scenario_A_shutdown :: "event list" where
  "scenario_A_shutdown = [Dtor, Work (good 4), Dtor]"

text \<open>The states of Scenario A after the submissions, after the drain and after the
  destructor.\<close>

definition after_submit :: "TimeBased AsyncFileLogger" where
  "after_submit =
     \<lparr>rotationPolicy = \<lparr>interval = 5, lastRotation = 0\<rparr>,
      outFile = \<lparr>is_open = True, failed = False, path = ''log.txt'', pending = []\<rparr>,
      currentFile = ''log.txt'',
      q = [\<lparr>message = ''a'', ts = 1\<rparr>, \<lparr>message = ''b'', ts = 2\<rparr>],
      stopping = False, worker = W_top, notified = 2, maxQueueSize = 2,
      dtor = D_alive, disk = [(''log.txt'', [])], std_streams = []\<rparr>"

definition after_drain :: "TimeBased AsyncFileLogger" where
  "after_drain =
     \<lparr>rotationPolicy = \<lparr>interval = 5, lastRotation = 0\<rparr>,
      outFile = \<lparr>is_open = True, failed = False, path = ''log.txt'',
                 pending = ''[01] a\<newline>[02] b\<newline>''\<rparr>,
      currentFile = ''log.txt'', q = [], stopping = False, worker = W_top,
      notified = 2, maxQueueSize = 2, dtor = D_alive,
      disk = [(''log.txt'', [])], std_streams = []\<rparr>"

definition after_shutdown :: "TimeBased AsyncFileLogger" where
  "after_shutdown =
     \<lparr>rotationPolicy = \<lparr>interval = 5, lastRotation = 0\<rparr>,
      outFile = \<lparr>is_open = False, failed = False, path = ''log.txt'', pending = []\<rparr>,
      currentFile = ''log.txt'', q = [], stopping = True, worker = W_done,
      notified = 3, maxQueueSize = 2, dtor = D_joined,
      disk = [(''log.txt'', []), (''log.txt'', ''[01] a\<newline>[02] b\<newline>''), (''log.txt'', [])],
      std_streams = []\<rparr>"

text \<open>Two submissions, the first with a message of two lines; the worker drains the queue
  and the logger is destroyed.\<close>

definition newline_submit :: "event list" where
  "newline_submit = [Log ''x\<newline>y'' 1, Log ''z'' 2]"

definition newline_drained :: "TimeBased AsyncFileLogger" where
  "newline_drained =
     \<lparr>rotationPolicy = \<lparr>interval = 5, lastRotation = 0\<rparr>,
      outFile = \<lparr>is_open = True, failed = False, path = ''log.txt'',
                 pending = ''[01] x\<newline>y\<newline>[02] z\<newline>''\<rparr>,
      currentFile = ''log.txt'', q = [], stopping = False, worker = W_top,
      notified = 2, maxQueueSize = 2, dtor = D_alive,
      disk = [(''log.txt'', [])], std_streams = []\<rparr>"

definition newline_destroyed :: "TimeBased AsyncFileLogger" where
  "newline_destroyed =
     \<lparr>rotationPolicy = \<lparr>interval = 5, lastRotation = 0\<rparr>,
      outFile = \<lparr>is_open = False, failed = False, path = ''log.txt'', pending = []\<rparr>,
      currentFile = ''log.txt'', q = [], stopping = True, worker = W_done,
      notified = 3, maxQueueSize = 2, dtor = D_joined,
      disk = [(''log.txt'', []), (''log.txt'', ''[01] x\<newline>y\<newline>[02] z\<newline>''),
              (''log.txt'', [])],
      std_streams = []\<rparr>"

text \<open>The destructor runs while the disk is full: the writes of \<^verbatim>\<open>flush\<close> and \<^verbatim>\<open>close\<close>
  fail.\<close>

definition full_disk_shutdown :: "event list" where
  "full_disk_shutdown = [Dtor, Work (full_disk 4), Dtor]"

subsection \<open>Items that reach the sink, and the drain in one critical section\<close>

text \<open>The line of an item without its newline, and the lines of a text: a line ends at
  each newline, and characters after the last newline form a last line.\<close>

definition record_line :: "(int \<Rightarrow> string) \<Rightarrow> Item \<Rightarrow> string" where
  "record_line tf it = ''['' @ tf (ts it) @ ''] '' @ message it"

fun lines_acc :: "string \<Rightarrow> string \<Rightarrow> string list" where
  "lines_acc cur [] = (if cur = [] then [] else [cur])"
| "lines_acc cur (c # cs) =
     (if c = CHR 0x0A then cur # lines_acc [] cs else lines_acc (cur @ [c]) cs)"

definition text_lines :: "string \<Rightarrow> string list" where
  "text_lines txt = lines_acc [] txt"



text \<open>
  The specification's \<^verbatim>\<open>drain\<close>, in its words: remove and return all currently queued
  items in FIFO order in one critical section. The worker then writes the batch, item by
  item, and comes back for the lock.
\<close>

definition drain :: "'p AsyncFileLogger \<Rightarrow> Item list \<times> 'p AsyncFileLogger" where
  "drain s = (q s, s\<lparr>q := []\<rparr>)"

fun write_items ::
    "'p RotationPolicy \<Rightarrow> (int \<Rightarrow> string) \<Rightarrow> (Item \<times> io_env) list \<Rightarrow> 'p AsyncFileLogger \<Rightarrow> 'p AsyncFileLogger" where
  "write_items P tf [] s = s"
| "write_items P tf ((it, env) # rest) s = write_items P tf rest (run_io P tf env it s)"

definition consume_batch ::
    "'p RotationPolicy \<Rightarrow> (int \<Rightarrow> string) \<Rightarrow> io_env list \<Rightarrow> 'p AsyncFileLogger \<Rightarrow> 'p AsyncFileLogger" where
  "consume_batch P tf envs s =
     (case drain s of (items, s') \<Rightarrow> (write_items P tf (zip items envs) s')\<lparr>worker := W_relock\<rparr>)"

text \<open>The worker alone, handling one item per environment: take the lock and pop, then
  write.\<close>

fun per_item :: "io_env list \<Rightarrow> event list" where
  "per_item [] = []"
| "per_item (env # envs) = Work env # Work env # per_item envs"

text \<open>A logger built while no file can be opened, and one submission that the worker
  takes and tries to write.\<close>

definition broken_logger :: "TimeBased AsyncFileLogger" where
  "broken_logger = AsyncFileLogger_ctor demo_policy demo_state (broken 0) []"

definition broken_run :: "event list" where
  "broken_run = [Log ''x'' 1, Work (broken 2), Work (broken 2)]"

text \<open>The state after the worker has taken that submission.\<close>

definition broken_taken :: "TimeBased AsyncFileLogger" where
  "broken_taken =
     \<lparr>rotationPolicy = \<lparr>interval = 5, lastRotation = 0\<rparr>,
      outFile = \<lparr>is_open = False, failed = True, path = [], pending = []\<rparr>,
      currentFile = ''log.txt'', q = [], stopping = False,
      worker = W_io \<lparr>message = ''x'', ts = 1\<rparr>, notified = 1,
      maxQueueSize = 10000, dtor = D_alive, disk = [], std_streams = []\<rparr>"

text \<open>
  The consumer of the specification, in its words, next to the producers: \<open>Drain\<close>
  removes all currently queued items in one critical section and writes them in order;
  \<open>Submit\<close> is a call of \<^verbatim>\<open>log\<close>.
\<close>

datatype spec_event = Submit string int | Drain "io_env list"

fun spec_exec ::
    "'p RotationPolicy \<Rightarrow> (int \<Rightarrow> string) \<Rightarrow> spec_event list \<Rightarrow> 'p AsyncFileLogger \<Rightarrow> 'p AsyncFileLogger" where
  "spec_exec P tf [] s = s"
| "spec_exec P tf (Submit msg t # es) s = spec_exec P tf es (snd (log msg t s))"
| "spec_exec P tf (Drain envs # es) s = spec_exec P tf es (consume_batch P tf envs s)"

text \<open>Two submissions arrive after the worker has begun to empty the full queue of
  Scenario A. In the source the worker has popped one item by then. A consumer that
  removes the whole queue in one critical section does so before, between or after the
  two submissions.\<close>

definition late_arrivals_code :: "event list" where
  "late_arrivals_code =
     [Work (good 3), Log ''c'' 3, Log ''d'' 3,
      Work (good 3), Work (good 3), Work (good 3), Work (good 3), Work (good 3), Work (good 3)]"

definition drain_before :: "spec_event list" where
  "drain_before = [Drain [good 3, good 3], Submit ''c'' 3, Submit ''d'' 3, Drain [good 3, good 3]]"

definition drain_between :: "spec_event list" where
  "drain_between = [Submit ''c'' 3, Drain [good 3, good 3], Submit ''d'' 3, Drain [good 3, good 3]]"

definition drain_after :: "spec_event list" where
  "drain_after = [Submit ''c'' 3, Submit ''d'' 3, Drain [good 3, good 3], Drain [good 3, good 3]]"

subsection \<open>Rotation after every K items\<close>

text \<open>
  Modelled from the spec: the repository has no count-based policy, only
  \<^verbatim>\<open>TimeBasedRotationPolicy\<close>. This is a \<^verbatim>\<open>RotationPolicy\<close> that requests rotation after
  every \<open>K\<close> items (property P5, Scenario C): \<open>since\<close> counts the items for which the
  current sink was chosen, \<open>shouldRotate\<close> answers yes when \<open>K\<close> of them went there, and
  \<open>nextFileName\<close> numbers the sinks.
\<close>

record EveryK =
  since :: nat
  opened :: nat

definition EveryKPolicy :: "nat \<Rightarrow> (nat \<Rightarrow> string) \<Rightarrow> EveryK RotationPolicy" where
  "EveryKPolicy K name =
     \<lparr>shouldRotate = (\<lambda>now p.
         if K \<le> since p then (True, p\<lparr>since := 1\<rparr>) else (False, p\<lparr>since := since p + 1\<rparr>)),
      nextFileName = (\<lambda>now p. (name (opened p), p\<lparr>opened := opened p + 1\<rparr>))\<rparr>"

definition EveryK_init :: EveryK where
  "EveryK_init = \<lparr>since = 0, opened = 0\<rparr>"

text \<open>What a file holds, counting the buffer of the stream if the stream is open on it.\<close>

definition sink_content :: "'p AsyncFileLogger \<Rightarrow> string \<Rightarrow> string" where
  "sink_content s n =
     file_content (disk s) n @
     (if is_open (outFile s) \<and> path (outFile s) = n then pending (outFile s) else [])"

text \<open>The invariant of the worker's side after the items \<open>W\<close> were handled.\<close>

definition rot_inv ::
    "nat \<Rightarrow> (nat \<Rightarrow> string) \<Rightarrow> (int \<Rightarrow> string) \<Rightarrow> Item list \<Rightarrow> EveryK AsyncFileLogger \<Rightarrow> bool" where
  "rot_inv K name tf W s \<longleftrightarrow>
     1 \<le> opened (rotationPolicy s) \<and> since (rotationPolicy s) \<le> K \<and>
     length W = (opened (rotationPolicy s) - 1) * K + since (rotationPolicy s) \<and>
     (1 < opened (rotationPolicy s) \<longrightarrow> 1 \<le> since (rotationPolicy s)) \<and>
     (worker s \<noteq> W_done \<longrightarrow>
        is_open (outFile s) \<and> \<not> failed (outFile s) \<and>
        path (outFile s) = name (opened (rotationPolicy s) - 1)) \<and>
     (worker s = W_done \<longrightarrow> \<not> is_open (outFile s)) \<and>
     (\<forall>i. sink_content s (name i) = records tf (take K (drop (i * K) W)))"

text \<open>Scenario C: sinks numbered by \<open>sink_name\<close>, rotation after every 5 items, 12
  submissions, then the worker drains the queue and the logger is destroyed.\<close>

definition sink_name :: "nat \<Rightarrow> string" where
  "sink_name i = ''sink'' @ replicate i (CHR ''+'')"

definition scenario_C_logger :: "EveryK AsyncFileLogger" where
  "scenario_C_logger =
     (AsyncFileLogger_ctor (EveryKPolicy 5 sink_name) EveryK_init (good 0) [])\<lparr>maxQueueSize := 10000\<rparr>"

definition scenario_C_submit :: "event list" where
  "scenario_C_submit =
     [Log ''a'' 1, Log ''b'' 1, Log ''c'' 1, Log ''d'' 1, Log ''e'' 1, Log ''f'' 1,
      Log ''g'' 2, Log ''h'' 2, Log ''i'' 2, Log ''j'' 2, Log ''k'' 2, Log ''l'' 2]"

definition tick :: event where
  "tick = Work (good 3)"

definition scenario_C_drain :: "event list" where
  "scenario_C_drain =
     [tick, tick, tick, tick, tick, tick, tick, tick, tick, tick, tick, tick, tick,
      tick, tick, tick, tick, tick, tick, tick, tick, tick, tick, tick, tick]"

definition scenario_C_drained :: "EveryK AsyncFileLogger" where
  "scenario_C_drained =
     \<lparr>rotationPolicy = \<lparr>since = 2, opened = 3\<rparr>,
      outFile = \<lparr>is_open = True, failed = False, path = ''sink++'',
                 pending = ''[02] k\<newline>[02] l\<newline>''\<rparr>,
      currentFile = ''sink++'', q = [], stopping = False, worker = W_top,
      notified = 12, maxQueueSize = 10000, dtor = D_alive,
      disk =
        [(''sink'', []),
         (''sink'', ''[01] a\<newline>[01] b\<newline>[01] c\<newline>[01] d\<newline>[01] e\<newline>''),
         (''sink+'', []),
         (''sink+'', ''[01] f\<newline>[02] g\<newline>[02] h\<newline>[02] i\<newline>[02] j\<newline>''),
         (''sink++'', [])],
      std_streams = []\<rparr>"

definition scenario_C_destroyed :: "EveryK AsyncFileLogger" where
  "scenario_C_destroyed =
     \<lparr>rotationPolicy = \<lparr>since = 2, opened = 3\<rparr>,
      outFile = \<lparr>is_open = False, failed = False, path = ''sink++'', pending = []\<rparr>,
      currentFile = ''sink++'', q = [], stopping = True, worker = W_done,
      notified = 13, maxQueueSize = 10000, dtor = D_joined,
      disk =
        [(''sink'', []),
         (''sink'', ''[01] a\<newline>[01] b\<newline>[01] c\<newline>[01] d\<newline>[01] e\<newline>''),
         (''sink+'', []),
         (''sink+'', ''[01] f\<newline>[02] g\<newline>[02] h\<newline>[02] i\<newline>[02] j\<newline>''),
         (''sink++'', []),
         (''sink++'', ''[02] k\<newline>[02] l\<newline>''),
         (''sink++'', [])],
      std_streams = []\<rparr>"

subsection \<open>Frame conditions and invariants\<close>

lemma rotateNow_frame [simp]:
  "q (rotateNow P env s) = q s"
  "stopping (rotateNow P env s) = stopping s"
  "worker (rotateNow P env s) = worker s"
  "notified (rotateNow P env s) = notified s"
  "maxQueueSize (rotateNow P env s) = maxQueueSize s"
  "dtor (rotateNow P env s) = dtor s"
  "std_streams (rotateNow P env s) = std_streams s"
  by (simp_all add: rotateNow_def split: prod.splits)

lemma run_io_frame [simp]:
  "q (run_io P tf env it s) = q s"
  "stopping (run_io P tf env it s) = stopping s"
  "worker (run_io P tf env it s) = worker s"
  "notified (run_io P tf env it s) = notified s"
  "maxQueueSize (run_io P tf env it s) = maxQueueSize s"
  "dtor (run_io P tf env it s) = dtor s"
  "std_streams (run_io P tf env it s) = std_streams s"
  by (simp_all add: run_io_def Let_def split: prod.splits)

lemma run_exit_frame [simp]:
  "q (run_exit env s) = q s"
  "stopping (run_exit env s) = stopping s"
  "worker (run_exit env s) = W_done"
  "notified (run_exit env s) = notified s"
  "maxQueueSize (run_exit env s) = maxQueueSize s"
  "dtor (run_exit env s) = dtor s"
  "std_streams (run_exit env s) = std_streams s"
  "rotationPolicy (run_exit env s) = rotationPolicy s"
  "currentFile (run_exit env s) = currentFile s"
  by (simp_all add: run_exit_def split: prod.splits)

lemmas step_defs = step_def run_step_def run_locked_def dtor_step_def log_def notify_one_def

lemma step_q_bound:
  "step P tf e s = Some s' \<Longrightarrow> length (q s) \<le> maxQueueSize s \<Longrightarrow>
   length (q s') \<le> maxQueueSize s' \<and> maxQueueSize s' = maxQueueSize s"
  by (auto simp: step_defs split: event.splits worker_pc.splits dtor_pc.splits list.splits if_splits)

lemma exec_q_bound:
  "exec P tf es s = Some s' \<Longrightarrow> length (q s) \<le> maxQueueSize s \<Longrightarrow>
   length (q s') \<le> maxQueueSize s' \<and> maxQueueSize s' = maxQueueSize s"
proof (induction es arbitrary: s)
  case Nil
  then show ?case by simp
next
  case (Cons e es)
  then obtain s1 where s1: "step P tf e s = Some s1" and r: "exec P tf es s1 = Some s'"
    by (auto split: option.splits)
  from step_q_bound[OF s1 Cons.prems(2)] Cons.IH[OF r] show ?case by simp
qed

lemma ctor_fields [simp]:
  "q (AsyncFileLogger_ctor P p env d0) = []"
  "stopping (AsyncFileLogger_ctor P p env d0) = False"
  "worker (AsyncFileLogger_ctor P p env d0) = W_top"
  "notified (AsyncFileLogger_ctor P p env d0) = 0"
  "maxQueueSize (AsyncFileLogger_ctor P p env d0) = 10000"
  "dtor (AsyncFileLogger_ctor P p env d0) = D_alive"
  "std_streams (AsyncFileLogger_ctor P p env d0) = []"
  by (simp_all add: AsyncFileLogger_ctor_def split: prod.splits)

lemma records_simps [simp]:
  "records tf [] = []"
  "records tf (xs @ ys) = records tf xs @ records tf ys"
  "records tf [x] = format_record tf x"
  by (simp_all add: records_def)

lemmas stream_defs = ofstream_open_def ofstream_close_def ofstream_flush_def ofstream_put_def

lemma rotateNow_text:
  "close_ok env \<or> \<not> is_open (outFile s) \<Longrightarrow> sink_text (rotateNow P env s) = sink_text s"
  by (auto simp add: rotateNow_def sink_text_def persisted_def stream_defs split: prod.splits)

lemma rotateNow_text_lost:
  "is_open (outFile s) \<Longrightarrow> \<not> close_ok env \<Longrightarrow> sink_text (rotateNow P env s) = persisted (disk s)"
  by (auto simp add: rotateNow_def sink_text_def persisted_def stream_defs split: prod.splits)

lemma rotateNow_ok:
  "env_ok env \<Longrightarrow> is_open (outFile (rotateNow P env s)) \<and> \<not> failed (outFile (rotateNow P env s))"
  by (simp add: rotateNow_def env_ok_def stream_defs split: prod.splits)

lemma sink_text_updates [simp]:
  "sink_text (s\<lparr>rotationPolicy := p\<rparr>) = sink_text s"
  "sink_text (s\<lparr>currentFile := c\<rparr>) = sink_text s"
  "sink_text (s\<lparr>q := xs\<rparr>) = sink_text s"
  "sink_text (s\<lparr>stopping := b\<rparr>) = sink_text s"
  "sink_text (s\<lparr>worker := w\<rparr>) = sink_text s"
  "sink_text (s\<lparr>notified := n\<rparr>) = sink_text s"
  "sink_text (s\<lparr>maxQueueSize := m\<rparr>) = sink_text s"
  "sink_text (s\<lparr>dtor := dp\<rparr>) = sink_text s"
  "sink_text (s\<lparr>std_streams := c\<rparr>) = sink_text s"
  by (simp_all add: sink_text_def)

lemma run_io_split:
  "\<exists>s3. run_io P tf env it s =
           s3\<lparr>outFile := ofstream_put (format_record tf it) (wr_ok env) (outFile s3)\<rparr> \<and>
         (sink_text s3 = sink_text s \<or> \<not> close_ok env \<and> sink_text s3 = persisted (disk s))"
proof -
  obtain r p' where rp: "shouldRotate P (now env) (rotationPolicy s) = (r, p')"
    by (cases "shouldRotate P (now env) (rotationPolicy s)")
  define s1 where "s1 = s\<lparr>rotationPolicy := p'\<rparr>"
  define s2 where "s2 = (if r then rotateNow P env s1 else s1)"
  define s3 where "s3 = (if \<not> is_open (outFile s2) then rotateNow P env s2 else s2)"
  have d1: "disk s1 = disk s" "sink_text s1 = sink_text s" by (simp_all add: s1_def)
  have t2: "sink_text s2 = sink_text s \<or> \<not> close_ok env \<and> sink_text s2 = persisted (disk s)"
  proof (cases "r \<and> is_open (outFile s1) \<and> \<not> close_ok env")
    case True
    with rotateNow_text_lost[of s1 env P] d1 show ?thesis by (simp add: s2_def)
  next
    case False
    with rotateNow_text[of env s1 P] d1 show ?thesis by (auto simp: s2_def)
  qed
  have t3: "sink_text s3 = sink_text s2"
    using rotateNow_text[of env s2 P] by (simp add: s3_def)
  have io: "run_io P tf env it s = s3\<lparr>outFile := ofstream_put (format_record tf it) (wr_ok env) (outFile s3)\<rparr>"
    by (simp add: run_io_def rp Let_def s3_def s2_def s1_def)
  from io t2 t3 show ?thesis by auto
qed

lemma run_io_text_any:
  "sink_text (run_io P tf env it s) =
     sink_text s @ (if is_open (outFile (run_io P tf env it s)) \<and> \<not> failed (outFile (run_io P tf env it s))
                    then format_record tf it else [])
   \<or> \<not> close_ok env \<and> sink_text (run_io P tf env it s) =
     persisted (disk s) @ (if is_open (outFile (run_io P tf env it s)) \<and> \<not> failed (outFile (run_io P tf env it s))
                    then format_record tf it else [])"
proof -
  from run_io_split[of P tf env it s] obtain s3 where
    io: "run_io P tf env it s = s3\<lparr>outFile := ofstream_put (format_record tf it) (wr_ok env) (outFile s3)\<rparr>"
    and t: "sink_text s3 = sink_text s \<or> \<not> close_ok env \<and> sink_text s3 = persisted (disk s)"
    by blast
  have "sink_text (s3\<lparr>outFile := ofstream_put (format_record tf it) (wr_ok env) (outFile s3)\<rparr>) =
        sink_text s3 @
        (if is_open (ofstream_put (format_record tf it) (wr_ok env) (outFile s3)) \<and>
            \<not> failed (ofstream_put (format_record tf it) (wr_ok env) (outFile s3))
         then format_record tf it else [])"
    by (simp add: sink_text_def ofstream_put_def)
  with t show ?thesis unfolding io by auto
qed

lemma run_io_text:
  assumes "close_ok env"
  shows "sink_text (run_io P tf env it s) =
     sink_text s @ (if is_open (outFile (run_io P tf env it s)) \<and> \<not> failed (outFile (run_io P tf env it s))
                    then format_record tf it else [])"
  using run_io_text_any[of P tf env it s] assms by blast

lemma run_io_ok:
  assumes "env_ok env" "healthy (outFile s)"
  shows "is_open (outFile (run_io P tf env it s)) \<and> \<not> failed (outFile (run_io P tf env it s))"
proof -
  obtain r p' where rp: "shouldRotate P (now env) (rotationPolicy s) = (r, p')"
    by (cases "shouldRotate P (now env) (rotationPolicy s)")
  define s1 where "s1 = s\<lparr>rotationPolicy := p'\<rparr>"
  define s2 where "s2 = (if r then rotateNow P env s1 else s1)"
  define s3 where "s3 = (if \<not> is_open (outFile s2) then rotateNow P env s2 else s2)"
  have h2: "healthy (outFile s2)"
    using assms rotateNow_ok[OF assms(1), of P s1] by (simp add: s2_def s1_def healthy_def)
  have h3: "is_open (outFile s3) \<and> \<not> failed (outFile s3)"
    using h2 rotateNow_ok[OF assms(1), of P s2] by (auto simp: s3_def healthy_def)
  have io: "run_io P tf env it s = s3\<lparr>outFile := ofstream_put (format_record tf it) (wr_ok env) (outFile s3)\<rparr>"
    by (simp add: run_io_def rp Let_def s3_def s2_def s1_def)
  show ?thesis
    unfolding io using h3 assms(1) by (simp add: ofstream_put_def env_ok_def)
qed

lemma run_exit_text: "close_ok env \<Longrightarrow> sink_text (run_exit env s) = sink_text s"
  by (simp add: run_exit_def sink_text_def persisted_def stream_defs split: prod.splits)

lemma run_exit_healthy: "healthy (outFile (run_exit env s))"
  by (auto simp add: run_exit_def healthy_def stream_defs split: prod.splits)

lemma run_locked_text:
  "close_ok env \<Longrightarrow> sink_text (run_locked env s) = sink_text s"
  "healthy (outFile s) \<Longrightarrow> healthy (outFile (run_locked env s))"
  by (auto simp: run_locked_def run_exit_healthy run_exit_text split: list.splits)

lemma step_text:
  assumes "step P tf e s = Some s'" "sink_ok e" "healthy (outFile s)"
  shows "sink_text s' = sink_text s @ records tf (processed1 e s) \<and> healthy (outFile s')"
proof (cases e)
  case (Log msg t)
  with assms show ?thesis
    by (auto simp: step_def log_def notify_one_def processed1_def split: if_splits)
next
  case (Work env)
  with assms(2) have ok: "env_ok env" by simp
  then have sy: "close_ok env" by (simp add: env_ok_def)
  show ?thesis
  proof (cases "worker s")
    case (W_io it)
    with Work assms have s': "s' = (run_io P tf env it s)\<lparr>worker := W_relock\<rparr>"
      by (auto simp: step_def run_step_def)
    from run_io_ok[OF ok assms(3), of P tf it] run_io_text[OF sy, of P tf it s] W_io Work
    show ?thesis by (simp add: s' processed1_def healthy_def)
  qed (use Work assms sy in \<open>auto simp: step_def run_step_def run_locked_text processed1_def
        split: if_splits\<close>)
next
  case Spurious
  with assms show ?thesis
    by (auto simp: step_def processed1_def split: if_splits)
next
  case Dtor
  with assms show ?thesis
    by (auto simp: step_def dtor_step_def notify_one_def processed1_def
        split: if_splits dtor_pc.splits)
qed

lemma step_fifo:
  "step P tf e s = Some s' \<Longrightarrow> processed1 e s @ outstanding s' = outstanding s @ enqueued1 e s"
  by (auto simp: step_defs processed1_def enqueued1_def outstanding_def
      split: event.splits worker_pc.splits dtor_pc.splits list.splits if_splits)

lemma exec_append:
  "exec P tf (es1 @ es2) s = (case exec P tf es1 s of None \<Rightarrow> None | Some s1 \<Rightarrow> exec P tf es2 s1)"
  by (induction es1 arbitrary: s) (auto split: option.splits)

lemma enqueued_append:
  "exec P tf es1 s = Some s1 \<Longrightarrow>
   enqueued P tf (es1 @ es2) s = enqueued P tf es1 s @ enqueued P tf es2 s1"
  by (induction es1 arbitrary: s) (auto split: option.splits)

lemma processed_append:
  "exec P tf es1 s = Some s1 \<Longrightarrow>
   processed P tf (es1 @ es2) s = processed P tf es1 s @ processed P tf es2 s1"
  by (induction es1 arbitrary: s) (auto split: option.splits)

lemma exec_text:
  "exec P tf es s = Some s' \<Longrightarrow> list_all sink_ok es \<Longrightarrow> healthy (outFile s) \<Longrightarrow>
   sink_text s' = sink_text s @ records tf (processed P tf es s) \<and> healthy (outFile s')"
proof (induction es arbitrary: s)
  case Nil
  then show ?case by simp
next
  case (Cons e es)
  then obtain s1 where s1: "step P tf e s = Some s1" and r: "exec P tf es s1 = Some s'"
    by (auto split: option.splits)
  from Cons.prems have ok: "sink_ok e" "list_all sink_ok es" by simp_all
  from step_text[OF s1 ok(1) Cons.prems(3)]
  have a: "sink_text s1 = sink_text s @ records tf (processed1 e s)" and h: "healthy (outFile s1)"
    by simp_all
  from Cons.IH[OF r ok(2) h] a s1 show ?case by simp
qed

lemma exec_fifo:
  "exec P tf es s = Some s' \<Longrightarrow>
   processed P tf es s @ outstanding s' = outstanding s @ enqueued P tf es s"
proof (induction es arbitrary: s)
  case Nil
  then show ?case by simp
next
  case (Cons e es)
  then obtain s1 where s1: "step P tf e s = Some s1" and r: "exec P tf es s1 = Some s'"
    by (auto split: option.splits)
  have "processed P tf (e # es) s @ outstanding s' =
        processed1 e s @ (processed P tf es s1 @ outstanding s')"
    using s1 by simp
  also have "\<dots> = (processed1 e s @ outstanding s1) @ enqueued P tf es s1"
    using Cons.IH[OF r] by simp
  also have "\<dots> = outstanding s @ enqueued P tf (e # es) s"
    using step_fifo[OF s1] s1 by simp
  finally show ?case .
qed

lemma rotateNow_pending:
  "(\<not> is_open (outFile s) \<longrightarrow> pending (outFile s) = []) \<Longrightarrow>
   (\<not> is_open (outFile (rotateNow P env s)) \<longrightarrow> pending (outFile (rotateNow P env s)) = [])"
  by (auto simp add: rotateNow_def stream_defs split: prod.splits if_splits)

lemma run_io_pending:
  assumes "\<not> is_open (outFile s) \<longrightarrow> pending (outFile s) = []"
  shows "\<not> is_open (outFile (run_io P tf env it s)) \<longrightarrow> pending (outFile (run_io P tf env it s)) = []"
proof -
  obtain r p' where rp: "shouldRotate P (now env) (rotationPolicy s) = (r, p')"
    by (cases "shouldRotate P (now env) (rotationPolicy s)")
  define s1 where "s1 = s\<lparr>rotationPolicy := p'\<rparr>"
  define s2 where "s2 = (if r then rotateNow P env s1 else s1)"
  define s3 where "s3 = (if \<not> is_open (outFile s2) then rotateNow P env s2 else s2)"
  have h2: "\<not> is_open (outFile s2) \<longrightarrow> pending (outFile s2) = []"
    using assms rotateNow_pending[of s1 P env] by (simp add: s2_def s1_def)
  have h3: "\<not> is_open (outFile s3) \<longrightarrow> pending (outFile s3) = []"
    using h2 rotateNow_pending[of s2 P env] by (simp add: s3_def)
  have io: "run_io P tf env it s = s3\<lparr>outFile := ofstream_put (format_record tf it) (wr_ok env) (outFile s3)\<rparr>"
    by (simp add: run_io_def rp Let_def s3_def s2_def s1_def)
  show ?thesis
    unfolding io using h3 by (simp add: ofstream_put_def)
qed

lemma run_exit_outFile:
  "(\<not> is_open (outFile s) \<longrightarrow> pending (outFile s) = []) \<Longrightarrow>
   \<not> is_open (outFile (run_exit env s)) \<and> pending (outFile (run_exit env s)) = []"
  by (auto simp add: run_exit_def stream_defs split: prod.splits)

lemma run_locked_coherent:
  assumes "coherent s" "worker s = W_top \<or> worker s = W_relock"
  shows "coherent (run_locked env s)"
proof (cases "q s")
  case Nil
  show ?thesis
  proof (cases "stopping s")
    case True
    with Nil assms run_exit_outFile[of s env] show ?thesis
      by (simp add: run_locked_def coherent_def)
  next
    case False
    with Nil assms show ?thesis
      by (auto simp add: run_locked_def coherent_def)
  qed
next
  case (Cons it rest)
  with assms show ?thesis
    by (auto simp add: run_locked_def coherent_def)
qed

lemma log_coherent: "coherent s \<Longrightarrow> coherent (snd (log msg t s))"
  by (auto simp: log_def notify_one_def coherent_def split: if_splits)

lemma run_io_coherent: "coherent s \<Longrightarrow> worker s = W_io it \<Longrightarrow> coherent ((run_io P tf env it s)\<lparr>worker := W_relock\<rparr>)"
  using run_io_pending[of s P tf env it] by (simp add: coherent_def)

lemma run_step_coherent:
  assumes "run_step P tf env s = Some s'" "coherent s"
  shows "coherent s'"
proof (cases "worker s")
  case W_top
  show ?thesis
  proof (cases "stopping s \<or> q s \<noteq> []")
    case True
    with W_top assms(1) have "s' = run_locked env s" by (simp add: run_step_def)
    with run_locked_coherent[OF assms(2), of env] W_top show ?thesis by simp
  next
    case False
    with W_top assms(1) have "s' = s\<lparr>worker := W_blocked\<rparr>" by (simp add: run_step_def)
    with False W_top assms(2) show ?thesis by (simp add: coherent_def)
  qed
next
  case W_blocked
  with assms(1) show ?thesis by (simp add: run_step_def)
next
  case (W_io it)
  with assms(1) have s': "s' = (run_io P tf env it s)\<lparr>worker := W_relock\<rparr>"
    by (auto simp: run_step_def)
  from run_io_coherent[OF assms(2) W_io] show ?thesis by (simp add: s')
next
  case W_relock
  with assms(1) have "s' = run_locked env s" by (simp add: run_step_def)
  with run_locked_coherent[OF assms(2), of env] W_relock show ?thesis by simp
next
  case W_done
  with assms(1) show ?thesis by (simp add: run_step_def)
qed

lemma dtor_step_coherent:
  assumes "dtor_step s = Some s'" "coherent s"
  shows "coherent s'"
proof (cases "dtor s")
  case D_alive
  with assms(1) have "s' = s\<lparr>stopping := True, dtor := D_stopped\<rparr>" by (simp add: dtor_step_def)
  with assms(2) D_alive show ?thesis by (auto simp: coherent_def)
next
  case D_stopped
  with assms(1) have "s' = (notify_one s)\<lparr>dtor := D_notified\<rparr>" by (simp add: dtor_step_def)
  with assms(2) D_stopped show ?thesis by (auto simp: coherent_def notify_one_def)
next
  case D_notified
  with assms(1) have "s' = s\<lparr>dtor := D_joined\<rparr> \<and> worker s = W_done"
    by (simp add: dtor_step_def split: if_splits)
  with assms(2) D_notified show ?thesis by (auto simp: coherent_def)
next
  case D_joined
  with assms(1) show ?thesis by (simp add: dtor_step_def)
qed

lemma step_coherent:
  assumes "step P tf e s = Some s'" "coherent s"
  shows "coherent s'"
proof (cases e)
  case (Log msg t)
  with assms(1) have "s' = snd (log msg t s)" by (simp add: step_def split: if_splits)
  with log_coherent[OF assms(2)] show ?thesis by simp
next
  case (Work env)
  with assms(1) have "run_step P tf env s = Some s'" by (simp add: step_def)
  from run_step_coherent[OF this assms(2)] show ?thesis .
next
  case Spurious
  with assms(1) have "s' = s\<lparr>worker := W_top\<rparr> \<and> worker s = W_blocked"
    by (simp add: step_def split: if_splits)
  with assms(2) show ?thesis by (simp add: coherent_def)
next
  case Dtor
  with assms(1) have "dtor_step s = Some s'" by (simp add: step_def)
  from dtor_step_coherent[OF this assms(2)] show ?thesis .
qed

lemma exec_coherent: "exec P tf es s = Some s' \<Longrightarrow> coherent s \<Longrightarrow> coherent s'"
proof (induction es arbitrary: s)
  case Nil
  then show ?case by simp
next
  case (Cons e es)
  then obtain s1 where s1: "step P tf e s = Some s1" and r: "exec P tf es s1 = Some s'"
    by (auto split: option.splits)
  from Cons.IH[OF r step_coherent[OF s1 Cons.prems(2)]] show ?case .
qed

lemma ctor_coherent: "coherent ((AsyncFileLogger_ctor P p env d0)\<lparr>maxQueueSize := m\<rparr>)"
  by (simp add: coherent_def AsyncFileLogger_ctor_def stream_defs fresh_ofstream_def split: prod.splits)

lemma ctor_healthy: "healthy (outFile ((AsyncFileLogger_ctor P p env d0)\<lparr>maxQueueSize := m\<rparr>))"
  by (simp add: healthy_def AsyncFileLogger_ctor_def stream_defs fresh_ofstream_def split: prod.splits)

lemma step_done:
  "step P tf e s = Some s' \<Longrightarrow> worker s = W_done \<Longrightarrow>
   worker s' = W_done \<and> disk s' = disk s \<and> outFile s' = outFile s \<and> processed1 e s = []"
  by (auto simp: step_defs processed1_def split: event.splits dtor_pc.splits if_splits)

lemma exec_done:
  "exec P tf es s = Some s' \<Longrightarrow> worker s = W_done \<Longrightarrow>
   worker s' = W_done \<and> disk s' = disk s \<and> outFile s' = outFile s"
proof (induction es arbitrary: s)
  case Nil
  then show ?case by simp
next
  case (Cons e es)
  then obtain s1 where s1: "step P tf e s = Some s1" and r: "exec P tf es s1 = Some s'"
    by (auto split: option.splits)
  from step_done[OF s1 Cons.prems(2)] Cons.IH[OF r] show ?case by simp
qed

lemma step_leftover:
  "step P tf e s = Some s' \<Longrightarrow>
   length (q s') \<le> length (q s) + length (enqueued1 e s) \<and>
   (worker s \<noteq> W_done \<and> worker s' = W_done \<longrightarrow> q s' = [])"
  by (auto simp: step_defs enqueued1_def split: event.splits worker_pc.splits dtor_pc.splits list.splits if_splits)

lemma exec_leftover:
  "exec P tf es s = Some s' \<Longrightarrow> worker s' = W_done \<Longrightarrow>
   length (q s') \<le> (if worker s = W_done then length (q s) else 0) + length (enqueued P tf es s)"
proof (induction es arbitrary: s)
  case Nil
  then show ?case by simp
next
  case (Cons e es)
  then obtain s1 where s1: "step P tf e s = Some s1" and r: "exec P tf es s1 = Some s'"
    by (auto split: option.splits)
  have ih: "length (q s') \<le> (if worker s1 = W_done then length (q s1) else 0) + length (enqueued P tf es s1)"
    by (rule Cons.IH[OF r Cons.prems(2)])
  have en: "length (enqueued P tf (e # es) s) = length (enqueued1 e s) + length (enqueued P tf es s1)"
    using s1 by simp
  from step_leftover[OF s1] have a: "length (q s1) \<le> length (q s) + length (enqueued1 e s)"
    and b: "worker s \<noteq> W_done \<and> worker s1 = W_done \<longrightarrow> q s1 = []" by simp_all
  show ?case
  proof (cases "worker s = W_done")
    case True
    with step_done[OF s1] have "worker s1 = W_done" by simp
    with ih a en True show ?thesis by simp
  next
    case False
    show ?thesis
    proof (cases "worker s1 = W_done")
      case True
      with b False have "q s1 = []" by simp
      with ih en True False show ?thesis by simp
    next
      case F2: False
      with ih en False show ?thesis by simp
    qed
  qed
qed

lemma enqueued_no_log: "logged es = [] \<Longrightarrow> enqueued P tf es s = []"
proof (induction es arbitrary: s)
  case Nil
  then show ?case by simp
next
  case (Cons e es)
  then show ?case by (cases e) (auto simp: enqueued1_def split: option.splits)
qed

lemma outstanding_done: "worker s = W_done \<Longrightarrow> outstanding s = q s"
  by (simp add: outstanding_def)

lemma drained:
  assumes e1: "exec P tf es1 s0 = Some s1"
    and nd: "worker s1 \<noteq> W_done"
    and e2: "exec P tf es2 s1 = Some s2"
    and d2: "worker s2 = W_done"
    and ok: "list_all sink_ok (es1 @ es2)"
    and h: "healthy (outFile s0)"
  shows "\<exists>late. sink_text s2 = sink_text s0 @ records tf (outstanding s0 @ enqueued P tf es1 s0 @ late)
           \<and> late @ q s2 = enqueued P tf es2 s1"
proof -
  have e: "exec P tf (es1 @ es2) s0 = Some s2"
    using e1 e2 by (simp add: exec_append)
  have stx: "sink_text s2 = sink_text s0 @ records tf (processed P tf (es1 @ es2) s0)"
    using exec_text[OF e ok h] by simp
  have fifo: "processed P tf (es1 @ es2) s0 @ q s2 =
              (outstanding s0 @ enqueued P tf es1 s0) @ enqueued P tf es2 s1"
    using exec_fifo[OF e] enqueued_append[OF e1, of es2] outstanding_done[OF d2] by simp
  have len: "length (q s2) \<le> length (enqueued P tf es2 s1)"
    using exec_leftover[OF e2 d2] nd by simp
  from fifo obtain us where
    "(processed P tf (es1 @ es2) s0 = (outstanding s0 @ enqueued P tf es1 s0) @ us \<and> us @ q s2 = enqueued P tf es2 s1)
     \<or> (processed P tf (es1 @ es2) s0 @ us = outstanding s0 @ enqueued P tf es1 s0 \<and> q s2 = us @ enqueued P tf es2 s1)"
    unfolding append_eq_append_conv2 by blast
  then show ?thesis
  proof
    assume "processed P tf (es1 @ es2) s0 = (outstanding s0 @ enqueued P tf es1 s0) @ us \<and> us @ q s2 = enqueued P tf es2 s1"
    with stx show ?thesis by auto
  next
    assume a: "processed P tf (es1 @ es2) s0 @ us = outstanding s0 @ enqueued P tf es1 s0 \<and> q s2 = us @ enqueued P tf es2 s1"
    with len have "us = []" by simp
    with a stx show ?thesis by auto
  qed
qed

lemma ctor_text:
  "sink_text (AsyncFileLogger_ctor P p env d0) = persisted d0"
  by (simp add: sink_text_def AsyncFileLogger_ctor_def stream_defs fresh_ofstream_def persisted_def
      split: prod.splits)

lemma ctor_outstanding:
  "outstanding ((AsyncFileLogger_ctor P p env d0)\<lparr>maxQueueSize := m\<rparr>) = []"
  by (simp add: outstanding_def)

lemma joined_stuck: "coherent s \<Longrightarrow> dtor s = D_joined \<Longrightarrow> step P tf e s = None"
  by (cases e) (auto simp: step_def run_step_def dtor_step_def coherent_def)

lemma shutdown_drains:
  assumes e1: "exec P tf es1 s0 = Some s1"
    and a1: "dtor s1 = D_alive"
    and e2: "exec P tf (Dtor # es2) s1 = Some s2"
    and j2: "dtor s2 = D_joined"
    and ok: "list_all sink_ok (es1 @ es2)"
    and h: "healthy (outFile s0)"
    and w: "coherent s0"
  shows "\<exists>late. persisted (disk s2) = sink_text s0 @ records tf (outstanding s0 @ enqueued P tf es1 s0 @ late)
           \<and> late @ q s2 = enqueued P tf (Dtor # es2) s1"
    and "\<not> is_open (outFile s2) \<and> pending (outFile s2) = [] \<and> worker s2 = W_done"
proof -
  have w1: "coherent s1" by (rule exec_coherent[OF e1 w])
  have w2: "coherent s2" by (rule exec_coherent[OF e2 w1])
  from w1 a1 have nd: "worker s1 \<noteq> W_done" by (auto simp: coherent_def)
  from w2 j2 have d2: "worker s2 = W_done" and cl: "\<not> is_open (outFile s2)" "pending (outFile s2) = []"
    by (auto simp: coherent_def)
  from ok have ok': "list_all sink_ok (es1 @ Dtor # es2)" by simp
  from drained[OF e1 nd e2 d2 ok' h] cl
  show "\<exists>late. persisted (disk s2) = sink_text s0 @ records tf (outstanding s0 @ enqueued P tf es1 s0 @ late)
           \<and> late @ q s2 = enqueued P tf (Dtor # es2) s1"
    by (simp add: sink_text_def)
  from d2 cl show "\<not> is_open (outFile s2) \<and> pending (outFile s2) = [] \<and> worker s2 = W_done" by simp
qed

text \<open>The policy of the scenarios asks for no rotation during their first five seconds.\<close>

lemma demo_shouldRotate:
  "0 \<le> t \<Longrightarrow> t < 5000000000 \<Longrightarrow>
   shouldRotate demo_policy t \<lparr>interval = 5, lastRotation = 0\<rparr> =
     (False, \<lparr>interval = 5, lastRotation = 0\<rparr>)"
  by (simp add: demo_policy_def TimeBasedRotationPolicy_def wrap64_def)

text \<open>With a clock of nanoseconds, an interval of five seconds elapses after 5000000000
  ticks and not one tick earlier; an interval of 10000000000 seconds wraps around in the
  conversion to ticks and has elapsed at once.\<close>

lemma TimeBased_interval_in_ticks:
  "shouldRotate (TimeBasedRotationPolicy 1000000000 nf) 4999999999 (TimeBased_ctor 5 0) =
     (False, \<lparr>interval = 5, lastRotation = 0\<rparr>)"
  "shouldRotate (TimeBasedRotationPolicy 1000000000 nf) 5000000000 (TimeBased_ctor 5 0) =
     (True, \<lparr>interval = 5, lastRotation = 5000000000\<rparr>)"
  "shouldRotate (TimeBasedRotationPolicy 1000000000 nf) 1 (TimeBased_ctor 10000000000 0) =
     (True, \<lparr>interval = 10000000000, lastRotation = 1\<rparr>)"
  by (simp_all add: TimeBasedRotationPolicy_def TimeBased_ctor_def wrap64_def)

lemma demo_nextFileName: "nextFileName demo_policy t p = (''log.txt'', p)"
  by (simp add: demo_policy_def TimeBasedRotationPolicy_def)

lemma demo_state_eq: "demo_state = \<lparr>interval = 5, lastRotation = 0\<rparr>"
  by (simp add: demo_state_def TimeBased_ctor_def wrap64_def)

lemmas eval_defs = step_def run_step_def run_locked_def run_exit_def run_io_def rotateNow_def
  dtor_step_def log_def notify_one_def AsyncFileLogger_ctor_def demo_shouldRotate demo_nextFileName
  ofstream_open_def ofstream_close_def ofstream_flush_def ofstream_put_def fresh_ofstream_def
  demo_state_eq demo_time_def good_def broken_def
  full_disk_def small_logger_def
  scenario_A_submit_def scenario_A_drain_def scenario_A_shutdown_def format_record_def
  persisted_def file_content_def records_def enqueued1_def env_ok_def

subsection \<open>Scenario A, evaluated\<close>

lemma scenario_A_submitted:
  "exec demo_policy demo_time scenario_A_submit small_logger = Some after_submit"
  by (simp add: eval_defs after_submit_def)

lemma scenario_A_drained:
  "exec demo_policy demo_time scenario_A_drain after_submit = Some after_drain"
  by (simp add: eval_defs after_submit_def after_drain_def)

lemma scenario_A_destroyed:
  "exec demo_policy demo_time (Dtor # scenario_A_shutdown) after_drain = Some after_shutdown"
  by (simp add: eval_defs after_drain_def after_shutdown_def)

lemma scenario_A_before_shutdown:
  "exec demo_policy demo_time (scenario_A_submit @ scenario_A_drain) small_logger = Some after_drain"
  by (simp add: exec_append scenario_A_submitted scenario_A_drained)

lemma scenario_A_enqueued:
  "enqueued demo_policy demo_time (scenario_A_submit @ scenario_A_drain) small_logger =
     [\<lparr>message = ''a'', ts = 1\<rparr>, \<lparr>message = ''b'', ts = 2\<rparr>]"
  by (simp add: eval_defs)

lemma scenario_A_sink_ok:
  "list_all sink_ok ((scenario_A_submit @ scenario_A_drain) @ scenario_A_shutdown)"
  by (simp add: eval_defs)

subsection \<open>What reaches the sink\<close>
















lemma format_record_line: "format_record tf it = record_line tf it @ [CHR 0x0A]"
  by (simp add: format_record_def record_line_def)

lemma lines_acc_line:
  "CHR 0x0A \<notin> set l \<Longrightarrow> lines_acc cur (l @ CHR 0x0A # rest) = (cur @ l) # lines_acc [] rest"
  by (induction l arbitrary: cur) auto

lemma text_lines_records:
  assumes "\<forall>it \<in> set A. CHR 0x0A \<notin> set (tf (ts it)) \<and> CHR 0x0A \<notin> set (message it)"
  shows "text_lines (records tf A) = map (record_line tf) A"
  using assms
proof (induction A)
  case Nil
  then show ?case by (simp add: text_lines_def)
next
  case (Cons it A)
  then have nl: "CHR 0x0A \<notin> set (record_line tf it)" by (simp add: record_line_def)
  have "records tf (it # A) = record_line tf it @ CHR 0x0A # records tf A"
    by (simp add: records_def format_record_line)
  with lines_acc_line[OF nl, of "[]" "records tf A"] Cons show ?case
    by (simp add: text_lines_def)
qed




subsection \<open>The unlocked part commutes with the queue\<close>

lemma rotateNow_commute:
  "rotateNow P env (s\<lparr>q := x\<rparr>) = (rotateNow P env s)\<lparr>q := x\<rparr>"
  "rotateNow P env (s\<lparr>worker := w\<rparr>) = (rotateNow P env s)\<lparr>worker := w\<rparr>"
  "rotateNow P env (s\<lparr>q := x, rotationPolicy := p\<rparr>) = (rotateNow P env (s\<lparr>rotationPolicy := p\<rparr>))\<lparr>q := x\<rparr>"
  "rotateNow P env (s\<lparr>worker := w, rotationPolicy := p\<rparr>) = (rotateNow P env (s\<lparr>rotationPolicy := p\<rparr>))\<lparr>worker := w\<rparr>"
  by (simp_all add: rotateNow_def split: prod.splits)

lemma run_io_commute:
  "run_io P tf env it (s\<lparr>q := x\<rparr>) = (run_io P tf env it s)\<lparr>q := x\<rparr>"
  "run_io P tf env it (s\<lparr>worker := w\<rparr>) = (run_io P tf env it s)\<lparr>worker := w\<rparr>"
  by (simp_all add: run_io_def Let_def rotateNow_commute split: prod.splits)

lemma write_items_worker:
  "write_items P tf xs (s\<lparr>worker := w\<rparr>) = (write_items P tf xs s)\<lparr>worker := w\<rparr>"
  by (induction xs arbitrary: s) (auto simp: run_io_commute)

lemma write_items_q [simp]: "q (write_items P tf xs s) = q s"
  by (induction xs arbitrary: s) auto

lemma exec_std_streams:
  "exec P tf es s = Some s' \<Longrightarrow> std_streams s' = std_streams s"
proof (induction es arbitrary: s)
  case Nil
  then show ?case by simp
next
  case (Cons e es)
  then obtain s1 where s1: "step P tf e s = Some s1" and r: "exec P tf es s1 = Some s'"
    by (auto split: option.splits)
  have "std_streams s1 = std_streams s"
    using s1 by (auto simp: step_defs split: event.splits worker_pc.splits dtor_pc.splits list.splits if_splits)
  with Cons.IH[OF r] show ?case by simp
qed

subsection \<open>Rotation after every K items\<close>

lemma take_drop_snoc:
  assumes "0 < K"
  shows "take K (drop (i * K) (W @ [x])) =
         take K (drop (i * K) W) @ (if i = length W div K then [x] else [])"
proof -
  let ?n = "length W"
  consider (lt) "i < ?n div K" | (eq) "i = ?n div K" | (gt) "?n div K < i" by linarith
  then show ?thesis
  proof cases
    case lt
    then have "Suc i \<le> ?n div K" by simp
    then have "Suc i * K \<le> ?n div K * K" by (rule mult_le_mono1)
    also have "\<dots> \<le> ?n" by simp
    finally have "i * K + K \<le> ?n" by simp
    with lt show ?thesis by simp
  next
    case eq
    have "i * K \<le> ?n" using eq by simp
    moreover have "?n - i * K < K" using eq assms
      by (metis minus_div_mult_eq_mod mod_less_divisor)
    ultimately show ?thesis using eq by simp
  next
    case gt
    then have "Suc (?n div K) \<le> i" by simp
    then have "Suc (?n div K) * K \<le> i * K" by (rule mult_le_mono1)
    moreover have "?n < Suc (?n div K) * K" using assms
      by (metis dividend_less_div_times mult.commute mult_Suc add.commute)
    ultimately have "?n < i * K" by simp
    with gt show ?thesis by simp
  qed
qed

lemma file_content_snoc [simp]:
  "file_content (d @ [(a, b)]) n = file_content d n @ (if a = n then b else [])"
  by (simp add: file_content_def)


lemma div_mult_add_less: "(r::nat) < K \<Longrightarrow> (c * K + r) div K = c"
  by simp

lemma run_io_everyK:
  assumes K: "0 < K" and inj: "inj name" and ok: "env_ok env"
    and inv: "rot_inv K name tf W s" and w: "worker s = W_io it"
  shows "rot_inv K name tf (W @ [it]) ((run_io (EveryKPolicy K name) tf env it s)\<lparr>worker := W_relock\<rparr>)"
proof -
  let ?p = "rotationPolicy s" and ?f = "outFile s"
  let ?c = "opened ?p" and ?r = "since ?p"
  let ?rec = "format_record tf it"
  from inv w have c1: "1 \<le> ?c" and rK: "?r \<le> K" and len: "length W = (?c - 1) * K + ?r"
    and r1: "1 < ?c \<longrightarrow> 1 \<le> ?r"
    and op: "is_open ?f" "\<not> failed ?f" "path ?f = name (?c - 1)"
    and cont: "\<And>i. sink_content s (name i) = records tf (take K (drop (i * K) W))"
    by (simp_all add: rot_inv_def)
  from ok have wr: "wr_ok env" and co: "\<And>n. can_open env n" and cl: "close_ok env"
    by (simp_all add: env_ok_def)
  have nm: "\<And>i j. name i = name j \<longleftrightarrow> i = j" using inj by (auto dest: injD)
  show ?thesis
  proof (cases "?r < K")
    case True
    have io: "run_io (EveryKPolicy K name) tf env it s =
        s\<lparr>rotationPolicy := ?p\<lparr>since := ?r + 1\<rparr>, outFile := ?f\<lparr>pending := pending ?f @ ?rec\<rparr>\<rparr>"
      using True op wr by (simp add: run_io_def EveryKPolicy_def Let_def ofstream_put_def)
    have dv: "length W div K = ?c - 1"
      using len True by simp
    have "\<And>i. sink_content (s\<lparr>rotationPolicy := ?p\<lparr>since := ?r + 1\<rparr>,
                 outFile := ?f\<lparr>pending := pending ?f @ ?rec\<rparr>, worker := W_relock\<rparr>) (name i) =
           records tf (take K (drop (i * K) (W @ [it])))"
    proof -
      fix i
      have "sink_content (s\<lparr>rotationPolicy := ?p\<lparr>since := ?r + 1\<rparr>,
                 outFile := ?f\<lparr>pending := pending ?f @ ?rec\<rparr>, worker := W_relock\<rparr>) (name i) =
            sink_content s (name i) @ (if i = ?c - 1 then ?rec else [])"
        using op nm by (auto simp: sink_content_def)
      also have "\<dots> = records tf (take K (drop (i * K) (W @ [it])))"
        using cont[of i] take_drop_snoc[OF K, of i W it] dv by simp
      finally show "sink_content (s\<lparr>rotationPolicy := ?p\<lparr>since := ?r + 1\<rparr>,
                 outFile := ?f\<lparr>pending := pending ?f @ ?rec\<rparr>, worker := W_relock\<rparr>) (name i) =
           records tf (take K (drop (i * K) (W @ [it])))" .
    qed
    with c1 True len op show ?thesis
      unfolding io by (simp add: rot_inv_def)
  next
    case False
    with rK have rk: "?r = K" by simp
    have io: "run_io (EveryKPolicy K name) tf env it s =
        s\<lparr>rotationPolicy := ?p\<lparr>since := 1, opened := ?c + 1\<rparr>, currentFile := name ?c,
          outFile := ?f\<lparr>is_open := True, failed := False, path := name ?c, pending := ?rec\<rparr>,
          disk := disk s @ [(path ?f, pending ?f), (name ?c, [])]\<rparr>"
      using rk op wr co cl
      by (simp add: run_io_def EveryKPolicy_def Let_def rotateNow_def ofstream_put_def
          ofstream_close_def ofstream_open_def)
    have lenK: "length W = ?c * K"
      using len rk c1 by (cases "?c") simp_all
    have dv: "length W div K = ?c"
      using lenK K by simp
    have "\<And>i. sink_content (s\<lparr>rotationPolicy := ?p\<lparr>since := 1, opened := ?c + 1\<rparr>, currentFile := name ?c,
          outFile := ?f\<lparr>is_open := True, failed := False, path := name ?c, pending := ?rec\<rparr>,
          disk := disk s @ [(path ?f, pending ?f), (name ?c, [])], worker := W_relock\<rparr>) (name i) =
           records tf (take K (drop (i * K) (W @ [it])))"
    proof -
      fix i
      have "sink_content (s\<lparr>rotationPolicy := ?p\<lparr>since := 1, opened := ?c + 1\<rparr>, currentFile := name ?c,
          outFile := ?f\<lparr>is_open := True, failed := False, path := name ?c, pending := ?rec\<rparr>,
          disk := disk s @ [(path ?f, pending ?f), (name ?c, [])], worker := W_relock\<rparr>) (name i) =
            sink_content s (name i) @ (if i = ?c then ?rec else [])"
        using op nm by (auto simp: sink_content_def file_content_def)
      also have "\<dots> = records tf (take K (drop (i * K) (W @ [it])))"
        using cont[of i] take_drop_snoc[OF K, of i W it] dv by simp
      finally show "sink_content (s\<lparr>rotationPolicy := ?p\<lparr>since := 1, opened := ?c + 1\<rparr>, currentFile := name ?c,
          outFile := ?f\<lparr>is_open := True, failed := False, path := name ?c, pending := ?rec\<rparr>,
          disk := disk s @ [(path ?f, pending ?f), (name ?c, [])], worker := W_relock\<rparr>) (name i) =
           records tf (take K (drop (i * K) (W @ [it])))" .
    qed
    with K lenK show ?thesis
      unfolding io by (simp add: rot_inv_def)
  qed
qed


lemma rot_inv_cong:
  "rotationPolicy s' = rotationPolicy s \<Longrightarrow> outFile s' = outFile s \<Longrightarrow> disk s' = disk s \<Longrightarrow>
   (worker s' = W_done \<longleftrightarrow> worker s = W_done) \<Longrightarrow>
   rot_inv K name tf W s' = rot_inv K name tf W s"
  by (simp add: rot_inv_def sink_content_def)

lemma run_exit_rot_inv:
  assumes "rot_inv K name tf W s" "worker s \<noteq> W_done" and ok: "env_ok env"
  shows "rot_inv K name tf W (run_exit env s)"
proof -
  from assms have op: "is_open (outFile s)" by (simp add: rot_inv_def)
  from ok have sy: "flush_ok env" "close_ok env" by (simp_all add: env_ok_def)
  have ex: "run_exit env s =
      s\<lparr>outFile := (outFile s)\<lparr>is_open := False, pending := []\<rparr>,
        disk := disk s @ [(path (outFile s), pending (outFile s)), (path (outFile s), [])],
        worker := W_done\<rparr>"
    using op sy by (simp add: run_exit_def ofstream_flush_def ofstream_close_def)
  have sc: "\<And>n. sink_content (run_exit env s) n = sink_content s n"
    unfolding ex using op by (simp add: sink_content_def file_content_def)
  have pol: "rotationPolicy (run_exit env s) = rotationPolicy s" by simp
  have cl: "\<not> is_open (outFile (run_exit env s))" "worker (run_exit env s) = W_done"
    unfolding ex by simp_all
  from assms(1) show ?thesis
    unfolding rot_inv_def sc pol using cl by simp
qed

lemma run_locked_rot_inv:
  assumes "rot_inv K name tf W s" "worker s \<noteq> W_done" and ok: "env_ok env"
  shows "rot_inv K name tf W (run_locked env s)"
proof (cases "q s")
  case Nil
  show ?thesis
  proof (cases "stopping s")
    case True
    with Nil run_exit_rot_inv[OF assms] show ?thesis by (simp add: run_locked_def)
  next
    case False
    have "rot_inv K name tf W (s\<lparr>worker := W_top\<rparr>) = rot_inv K name tf W s"
      using assms(2) by (intro rot_inv_cong) simp_all
    with Nil False assms(1) show ?thesis by (simp add: run_locked_def)
  qed
next
  case (Cons it rest)
  have "rot_inv K name tf W (s\<lparr>q := rest, worker := W_io it\<rparr>) = rot_inv K name tf W s"
    using assms(2) by (intro rot_inv_cong) simp_all
  with Cons assms(1) show ?thesis by (simp add: run_locked_def)
qed

lemma run_step_rot_inv:
  assumes K: "0 < K" and inj: "inj name" and ok: "env_ok env"
    and st: "run_step (EveryKPolicy K name) tf env s = Some s'"
    and inv: "rot_inv K name tf W s"
  shows "rot_inv K name tf (W @ processed1 (Work env) s) s'"
proof (cases "worker s")
  case W_top
  show ?thesis
  proof (cases "stopping s \<or> q s \<noteq> []")
    case True
    with W_top st have "s' = run_locked env s" by (simp add: run_step_def)
    with run_locked_rot_inv[OF inv _ ok] W_top show ?thesis by (simp add: processed1_def)
  next
    case False
    with W_top st have s': "s' = s\<lparr>worker := W_blocked\<rparr>" by (simp add: run_step_def)
    have "rot_inv K name tf W (s\<lparr>worker := W_blocked\<rparr>) = rot_inv K name tf W s"
      using W_top by (intro rot_inv_cong) simp_all
    with inv W_top show ?thesis by (simp add: s' processed1_def)
  qed
next
  case W_blocked
  with st show ?thesis by (simp add: run_step_def)
next
  case (W_io it)
  with st have s': "s' = (run_io (EveryKPolicy K name) tf env it s)\<lparr>worker := W_relock\<rparr>"
    by (simp add: run_step_def)
  from run_io_everyK[OF K inj ok inv W_io] W_io show ?thesis
    by (simp add: s' processed1_def)
next
  case W_relock
  with st have "s' = run_locked env s" by (simp add: run_step_def)
  with run_locked_rot_inv[OF inv _ ok] W_relock show ?thesis by (simp add: processed1_def)
next
  case W_done
  with st show ?thesis by (simp add: run_step_def)
qed

lemma step_rot_inv:
  assumes K: "0 < K" and inj: "inj name" and ok: "sink_ok e"
    and st: "step (EveryKPolicy K name) tf e s = Some s'"
    and inv: "rot_inv K name tf W s"
  shows "rot_inv K name tf (W @ processed1 e s) s'"
proof (cases e)
  case (Log msg t)
  with st have s': "s' = snd (log msg t s)" by (simp add: step_def split: if_splits)
  have "rot_inv K name tf W (snd (log msg t s)) = rot_inv K name tf W s"
    by (intro rot_inv_cong) (simp_all add: log_def notify_one_def)
  with inv Log show ?thesis by (simp add: s' processed1_def)
next
  case (Work env)
  with st ok have "run_step (EveryKPolicy K name) tf env s = Some s'" "env_ok env"
    by (simp_all add: step_def)
  from run_step_rot_inv[OF K inj this(2) this(1) inv] Work show ?thesis by simp
next
  case Spurious
  with st have s': "s' = s\<lparr>worker := W_top\<rparr>" and b: "worker s = W_blocked"
    by (simp_all add: step_def split: if_splits)
  have "rot_inv K name tf W (s\<lparr>worker := W_top\<rparr>) = rot_inv K name tf W s"
    using b by (intro rot_inv_cong) simp_all
  with inv Spurious show ?thesis by (simp add: s' processed1_def)
next
  case Dtor
  with st have d: "dtor_step s = Some s'" by (simp add: step_def)
  have "rot_inv K name tf W s' = rot_inv K name tf W s"
    using d by (intro rot_inv_cong)
      (auto simp: dtor_step_def notify_one_def split: dtor_pc.splits if_splits)
  with inv Dtor show ?thesis by (simp add: processed1_def)
qed

lemma exec_rot_inv:
  assumes K: "0 < K" and inj: "inj name"
  shows "exec (EveryKPolicy K name) tf es s = Some s' \<Longrightarrow> list_all sink_ok es \<Longrightarrow>
         rot_inv K name tf W s \<Longrightarrow>
         rot_inv K name tf (W @ processed (EveryKPolicy K name) tf es s) s'"
proof (induction es arbitrary: s W)
  case Nil
  then show ?case by simp
next
  case (Cons e es)
  then obtain s1 where s1: "step (EveryKPolicy K name) tf e s = Some s1"
    and r: "exec (EveryKPolicy K name) tf es s1 = Some s'"
    by (auto split: option.splits)
  from Cons.prems have ok: "sink_ok e" "list_all sink_ok es" by simp_all
  from Cons.IH[OF r ok(2) step_rot_inv[OF K inj ok(1) s1 Cons.prems(3)]] s1
  show ?case by simp
qed

lemma ctor_rot_inv:
  assumes "\<forall>i. file_content d0 (name i) = []" "can_open env (name 0)"
  shows "rot_inv K name tf []
           ((AsyncFileLogger_ctor (EveryKPolicy K name) EveryK_init env d0)\<lparr>maxQueueSize := m\<rparr>)"
  using assms
  by (simp add: rot_inv_def AsyncFileLogger_ctor_def EveryKPolicy_def EveryK_init_def
      ofstream_open_def fresh_ofstream_def sink_content_def file_content_def)


lemma processed_all:
  assumes e1: "exec P tf es1 s0 = Some s1"
    and nd: "worker s1 \<noteq> W_done"
    and e2: "exec P tf es2 s1 = Some s2"
    and d2: "worker s2 = W_done"
    and nl: "enqueued P tf es2 s1 = []"
  shows "processed P tf (es1 @ es2) s0 = outstanding s0 @ enqueued P tf es1 s0"
proof -
  have e: "exec P tf (es1 @ es2) s0 = Some s2"
    using e1 e2 by (simp add: exec_append)
  have "length (q s2) \<le> length (enqueued P tf es2 s1)"
    using exec_leftover[OF e2 d2] nd by simp
  with nl have "q s2 = []" by simp
  with exec_fifo[OF e] enqueued_append[OF e1, of es2] outstanding_done[OF d2] nl
  show ?thesis by simp
qed

lemma chunk_index:
  fixes K :: nat
  assumes K: "0 < K"
  shows "i * K < N \<longleftrightarrow> i < (N + K - 1) div K"
proof -
  have "i < (N + K - 1) div K \<longleftrightarrow> Suc i \<le> (N + K - 1) div K" by auto
  also have "\<dots> \<longleftrightarrow> Suc i * K \<le> N + K - 1"
    using K by (simp add: less_eq_div_iff_mult_less_eq)
  also have "\<dots> \<longleftrightarrow> i * K < N" using K by auto
  finally show ?thesis by simp
qed

lemma chunk_count:
  fixes K :: nat
  assumes "0 < K" "1 \<le> c" "r \<le> K" "N = (c - 1) * K + r" "1 < c \<longrightarrow> 1 \<le> r"
  shows "c = max 1 ((N + K - 1) div K)"
proof (cases "r = 0")
  case True
  with assms have "c = 1" by (cases "c = 1") auto
  with True assms show ?thesis by simp
next
  case False
  define t where "t = r + K - 1"
  have eq: "N + K - 1 = (c - 1) * K + t" using False assms(4) by (simp add: t_def)
  have t1: "t div K = 1"
    using False assms(1,3) by (simp add: t_def div_nat_eqI)
  have "((c - 1) * K + t) div K = (c - 1) + t div K"
    using assms(1) by simp
  with eq t1 have "(N + K - 1) div K = (c - 1) + 1" by simp
  with assms(2) show ?thesis by simp
qed

lemma sink_name_inj: "inj sink_name"
  by (rule injI) (auto simp: sink_name_def dest: arg_cong[where f = length])

lemmas scenario_C_defs = scenario_C_logger_def scenario_C_submit_def scenario_C_drain_def
  scenario_C_drained_def scenario_C_destroyed_def EveryKPolicy_def EveryK_init_def sink_name_def
  tick_def

subsection \<open>Scenario C, evaluated\<close>

lemma scenario_C_queue_drained:
  "exec (EveryKPolicy 5 sink_name) demo_time (scenario_C_submit @ scenario_C_drain) scenario_C_logger =
   Some scenario_C_drained"
  by (simp add: eval_defs scenario_C_defs)

lemma scenario_C_logger_destroyed:
  "exec (EveryKPolicy 5 sink_name) demo_time (Dtor # scenario_A_shutdown) scenario_C_drained =
   Some scenario_C_destroyed"
  by (simp add: eval_defs scenario_C_defs)

lemma scenario_C_none_dropped:
  "enqueued (EveryKPolicy 5 sink_name) demo_time (scenario_C_submit @ scenario_C_drain) scenario_C_logger =
   logged (scenario_C_submit @ scenario_C_drain)"
  by (simp add: eval_defs scenario_C_defs)

lemma scenario_C_logged:
  "logged (scenario_C_submit @ scenario_C_drain) =
     [\<lparr>message = ''a'', ts = 1\<rparr>, \<lparr>message = ''b'', ts = 1\<rparr>, \<lparr>message = ''c'', ts = 1\<rparr>,
      \<lparr>message = ''d'', ts = 1\<rparr>, \<lparr>message = ''e'', ts = 1\<rparr>, \<lparr>message = ''f'', ts = 1\<rparr>,
      \<lparr>message = ''g'', ts = 2\<rparr>, \<lparr>message = ''h'', ts = 2\<rparr>, \<lparr>message = ''i'', ts = 2\<rparr>,
      \<lparr>message = ''j'', ts = 2\<rparr>, \<lparr>message = ''k'', ts = 2\<rparr>, \<lparr>message = ''l'', ts = 2\<rparr>]"
  by (simp add: scenario_C_submit_def scenario_C_drain_def tick_def)

subsection \<open>The destructor can always return\<close>

lemma worker_finishes:
  assumes "stopping s" "worker s \<noteq> W_blocked"
  shows "\<exists>n s'. exec P tf (replicate n (Work env)) s = Some s' \<and> worker s' = W_done \<and> dtor s' = dtor s"
  using assms
proof (induction "2 * length (q s) + (case worker s of W_done \<Rightarrow> 0 | W_relock \<Rightarrow> 1 | W_io _ \<Rightarrow> 2 | _ \<Rightarrow> 3)"
    arbitrary: s rule: less_induct)
  case less
  show ?case
  proof (cases "worker s = W_done")
    case True
    then have "exec P tf (replicate 0 (Work env)) s = Some s \<and> worker s = W_done \<and> dtor s = dtor s"
      by simp
    then show ?thesis by blast
  next
    case False
    with less.prems obtain s1 where st: "step P tf (Work env) s = Some s1"
      by (cases "worker s") (auto simp: step_def run_step_def)
    have props: "stopping s1 \<and> worker s1 \<noteq> W_blocked \<and> dtor s1 = dtor s \<and>
      2 * length (q s1) + (case worker s1 of W_done \<Rightarrow> 0 | W_relock \<Rightarrow> 1 | W_io _ \<Rightarrow> 2 | _ \<Rightarrow> 3)
      < 2 * length (q s) + (case worker s of W_done \<Rightarrow> 0 | W_relock \<Rightarrow> 1 | W_io _ \<Rightarrow> 2 | _ \<Rightarrow> 3)"
      using st less.prems False
      by (cases "worker s"; cases "q s")
        (auto simp: step_def run_step_def run_locked_def)
    then obtain n s' where r: "exec P tf (replicate n (Work env)) s1 = Some s'" "worker s' = W_done" "dtor s' = dtor s1"
      using less.hyps[of s1] by blast
    have "exec P tf (replicate (Suc n) (Work env)) s = Some s'"
      using st r(1) by simp
    with r props show ?thesis by metis
  qed
qed

lemma shutdown_returns:
  assumes "coherent s" "dtor s \<noteq> D_joined"
  shows "\<exists>es s'. set es \<subseteq> {Dtor, Work env} \<and> exec P tf es s = Some s' \<and> dtor s' = D_joined"
proof -
  have "\<exists>es s1. set es \<subseteq> {Dtor, Work env} \<and> exec P tf es s = Some s1 \<and> dtor s1 = D_notified \<and> coherent s1"
  proof (cases "dtor s")
    case D_alive
    let ?a = "s\<lparr>stopping := True, dtor := D_stopped\<rparr>"
    let ?b = "(notify_one ?a)\<lparr>dtor := D_notified\<rparr>"
    have e: "exec P tf [Dtor, Dtor] s = Some ?b"
      using D_alive by (simp add: step_def dtor_step_def)
    from exec_coherent[OF e assms(1)] e show ?thesis
      by (intro exI[of _ "[Dtor, Dtor]"] exI[of _ ?b]) simp
  next
    case D_stopped
    let ?b = "(notify_one s)\<lparr>dtor := D_notified\<rparr>"
    have e: "exec P tf [Dtor] s = Some ?b"
      using D_stopped by (simp add: step_def dtor_step_def)
    from exec_coherent[OF e assms(1)] e show ?thesis
      by (intro exI[of _ "[Dtor]"] exI[of _ ?b]) simp
  next
    case D_notified
    with assms(1) show ?thesis
      by (intro exI[of _ "[]"] exI[of _ s]) simp
  next
    case D_joined
    with assms(2) show ?thesis by simp
  qed
  then obtain es1 s1 where 1: "set es1 \<subseteq> {Dtor, Work env}" "exec P tf es1 s = Some s1"
    "dtor s1 = D_notified" "coherent s1"
    by blast
  from 1(3,4) have "stopping s1" "worker s1 \<noteq> W_blocked" by (auto simp: coherent_def)
  from worker_finishes[OF this, of P tf env]
  obtain n s2 where 2: "exec P tf (replicate n (Work env)) s1 = Some s2"
    "worker s2 = W_done" "dtor s2 = dtor s1" by blast
  have 3: "exec P tf [Dtor] s2 = Some (s2\<lparr>dtor := D_joined\<rparr>)"
    using 2 1(3) by (simp add: step_def dtor_step_def)
  have "exec P tf (es1 @ replicate n (Work env) @ [Dtor]) s = Some (s2\<lparr>dtor := D_joined\<rparr>)"
    using 1(2) 2(1) 3 by (simp add: exec_append)
  moreover have "set (es1 @ replicate n (Work env) @ [Dtor]) \<subseteq> {Dtor, Work env}"
    using 1(1) by auto
  ultimately show ?thesis
    by (intro exI[of _ "es1 @ replicate n (Work env) @ [Dtor]"] exI[of _ "s2\<lparr>dtor := D_joined\<rparr>"]) simp
qed

lemma no_log_logged: "set es \<subseteq> {Dtor, Work env} \<Longrightarrow> logged es = []"
  by (induction es) auto

lemma all_sink_ok: "env_ok env \<Longrightarrow> set es \<subseteq> {Dtor, Work env} \<Longrightarrow> list_all sink_ok es"
  by (induction es) auto

lemma shutdown_returns_ok:
  assumes "coherent s" "dtor s = D_alive"
  shows "\<exists>es s'. exec P tf (Dtor # es) s = Some s' \<and> dtor s' = D_joined \<and>
                 list_all sink_ok es \<and> logged es = []"
proof -
  let ?a = "s\<lparr>stopping := True, dtor := D_stopped\<rparr>"
  have e: "exec P tf [Dtor] s = Some ?a"
    using assms(2) by (simp add: step_def dtor_step_def)
  have ca: "coherent ?a" by (rule exec_coherent[OF e assms(1)])
  have "dtor ?a \<noteq> D_joined" by simp
  from shutdown_returns[OF ca this, of "good 0" P tf]
  obtain es s' where r: "set es \<subseteq> {Dtor, Work (good 0)}" "exec P tf es ?a = Some s'"
    "dtor s' = D_joined"
    by blast
  have g: "env_ok (good 0)" by (simp add: env_ok_def good_def)
  have "exec P tf (Dtor # es) s = Some s'"
    using e r(2) by (simp split: option.splits)
  with r(3) all_sink_ok[OF g r(1)] no_log_logged[OF r(1)] show ?thesis by blast
qed

subsection \<open>Two more runs, evaluated\<close>

lemma newline_run_drained:
  "exec demo_policy demo_time (newline_submit @ scenario_A_drain) small_logger = Some newline_drained"
  by (simp add: eval_defs newline_submit_def newline_drained_def)

lemma newline_run_destroyed:
  "exec demo_policy demo_time (Dtor # scenario_A_shutdown) newline_drained = Some newline_destroyed"
  by (simp add: eval_defs newline_drained_def newline_destroyed_def)

lemma newline_run_sink_ok:
  "list_all sink_ok (newline_submit @ scenario_A_drain)"
  by (simp add: eval_defs newline_submit_def)

lemma newline_run_none_dropped:
  "enqueued demo_policy demo_time (newline_submit @ scenario_A_drain) small_logger =
   logged (newline_submit @ scenario_A_drain)"
  by (simp add: eval_defs newline_submit_def)

lemma scenario_A_shutdown_ok: "list_all sink_ok scenario_A_shutdown \<and> logged scenario_A_shutdown = []"
  by (simp add: eval_defs)

text \<open>Without a working sink the drain is not graceful: when the writes of \<^verbatim>\<open>flush\<close> and
  \<^verbatim>\<open>close\<close> fail during the destructor, the two lines of Scenario A that were still in the
  buffer are on no file, and the destructor returns all the same.\<close>

lemma failed_close_loses_buffer:
  "map_option (\<lambda>s. (dtor s, worker s, persisted (disk s), pending (outFile s), is_open (outFile s)))
     (exec demo_policy demo_time (Dtor # full_disk_shutdown) after_drain) =
   Some (D_joined, W_done, [], [], False)"
  by (simp add: eval_defs after_drain_def full_disk_shutdown_def)

section \<open>The properties\<close>

subsection \<open>Graceful drain\<close>

text \<open>
  Claim C1. Take any schedule \<open>es1\<close> that starts at the constructed logger, with a working
  sink (every open, insertion, \<^verbatim>\<open>flush\<close> and \<^verbatim>\<open>close\<close> succeeds), at whose end the
  destructor has not been entered. Then the destructor, entered there, can return; and
  whenever it has returned (its first step is the event \<open>Dtor\<close> after \<open>es1\<close>, and the sink
  works on), the disk holds, after what it held before, the line of every item that was
  enqueued before the destructor was entered, in order (followed by the lines of items
  enqueued while it ran); the stream is closed with an empty buffer, the worker has
  returned, and no step of any thread is possible any more. Without a working sink the
  buffer can be lost at the final \<^verbatim>\<open>close\<close> (\<open>failed_close_loses_buffer\<close>).
\<close>

theorem shutdown_writes_every_enqueued_item:
  assumes e1: "exec P tf es1 ((AsyncFileLogger_ctor P p env d0)\<lparr>maxQueueSize := m\<rparr>) = Some s1"
    and a1: "dtor s1 = D_alive"
    and ok1: "list_all sink_ok es1"
  shows "(\<exists>es2 s2. exec P tf (Dtor # es2) s1 = Some s2 \<and> dtor s2 = D_joined \<and> list_all sink_ok es2)
       \<and> (\<forall>es2 s2. exec P tf (Dtor # es2) s1 = Some s2 \<and> dtor s2 = D_joined \<and> list_all sink_ok es2 \<longrightarrow>
            (\<exists>late. persisted (disk s2) =
               persisted d0 @
               records tf (enqueued P tf es1 ((AsyncFileLogger_ctor P p env d0)\<lparr>maxQueueSize := m\<rparr>) @ late))
            \<and> \<not> is_open (outFile s2) \<and> pending (outFile s2) = [] \<and> worker s2 = W_done
            \<and> (\<forall>e. step P tf e s2 = None))"
proof (rule conjI)
  have w1: "coherent s1" by (rule exec_coherent[OF e1 ctor_coherent])
  from shutdown_returns_ok[OF w1 a1, of P tf]
  show "\<exists>es2 s2. exec P tf (Dtor # es2) s1 = Some s2 \<and> dtor s2 = D_joined \<and> list_all sink_ok es2"
    by blast
next
  let ?s0 = "(AsyncFileLogger_ctor P p env d0)\<lparr>maxQueueSize := m\<rparr>"
  show "\<forall>es2 s2. exec P tf (Dtor # es2) s1 = Some s2 \<and> dtor s2 = D_joined \<and> list_all sink_ok es2 \<longrightarrow>
            (\<exists>late. persisted (disk s2) = persisted d0 @ records tf (enqueued P tf es1 ?s0 @ late))
            \<and> \<not> is_open (outFile s2) \<and> pending (outFile s2) = [] \<and> worker s2 = W_done
            \<and> (\<forall>e. step P tf e s2 = None)"
  proof (intro allI impI)
  fix es2 s2
  assume h: "exec P tf (Dtor # es2) s1 = Some s2 \<and> dtor s2 = D_joined \<and> list_all sink_ok es2"
  let ?s0 = "(AsyncFileLogger_ctor P p env d0)\<lparr>maxQueueSize := m\<rparr>"
  from h have e2: "exec P tf (Dtor # es2) s1 = Some s2" and j2: "dtor s2 = D_joined"
    and ok: "list_all sink_ok (es1 @ es2)"
    using ok1 by simp_all
  have w2: "coherent s2"
    using exec_coherent[OF e2 exec_coherent[OF e1 ctor_coherent]] .
  from shutdown_drains(1)[OF e1 a1 e2 j2 ok ctor_healthy ctor_coherent]
  have "\<exists>late. persisted (disk s2) = persisted d0 @ records tf (enqueued P tf es1 ?s0 @ late)"
    by (auto simp: ctor_text ctor_outstanding)
  moreover note shutdown_drains(2)[OF e1 a1 e2 j2 ok ctor_healthy ctor_coherent]
  moreover have "\<forall>e. step P tf e s2 = None"
    using joined_stuck[OF w2 j2] by simp
  ultimately show "(\<exists>late. persisted (disk s2) =
               persisted d0 @ records tf (enqueued P tf es1 ?s0 @ late))
            \<and> \<not> is_open (outFile s2) \<and> pending (outFile s2) = [] \<and> worker s2 = W_done
            \<and> (\<forall>e. step P tf e s2 = None)"
    by simp
  qed
qed

theorem shutdown_writes_every_enqueued_item_witness:
  "exec demo_policy demo_time (scenario_A_submit @ scenario_A_drain) small_logger = Some after_drain
   \<and> dtor after_drain = D_alive
   \<and> (\<exists>es2 s2. exec demo_policy demo_time (Dtor # es2) after_drain = Some s2 \<and> dtor s2 = D_joined \<and>
         list_all sink_ok es2)
   \<and> exec demo_policy demo_time (Dtor # scenario_A_shutdown) after_drain = Some after_shutdown
   \<and> dtor after_shutdown = D_joined
   \<and> (\<exists>late. persisted (disk after_shutdown) =
         persisted [] @
         records demo_time
           (enqueued demo_policy demo_time (scenario_A_submit @ scenario_A_drain) small_logger @ late))
   \<and> \<not> is_open (outFile after_shutdown) \<and> pending (outFile after_shutdown) = []
   \<and> worker after_shutdown = W_done
   \<and> (\<forall>e. step demo_policy demo_time e after_shutdown = None)"
proof -
  note h1 = scenario_A_before_shutdown
  have h2: "dtor after_drain = D_alive"
    by (simp add: after_drain_def)
  note h3 = scenario_A_destroyed
  have h4: "dtor after_shutdown = D_joined"
    by (simp add: after_shutdown_def)
  have h5: "list_all sink_ok (scenario_A_submit @ scenario_A_drain)"
    using scenario_A_sink_ok by simp
  have h6: "list_all sink_ok scenario_A_shutdown"
    using scenario_A_sink_ok by simp
  from shutdown_writes_every_enqueued_item
         [OF h1 [unfolded small_logger_def] h2 h5, folded small_logger_def]
       h1 h2 h3 h4 h6
  show ?thesis by blast
qed

subsection \<open>Bounded queue\<close>

text \<open>
  Claim C2. Along every schedule from the constructed logger, whatever the number of
  submissions and however few steps the worker takes, the queue never holds more than
  \<open>maxQueueSize\<close> items, and \<open>maxQueueSize\<close> keeps its configured value (10000 in the
  source; any value \<open>m\<close> here).
\<close>

theorem queue_never_exceeds_maxQueueSize:
  "exec P tf es ((AsyncFileLogger_ctor P p env d0)\<lparr>maxQueueSize := m\<rparr>) = Some s \<Longrightarrow>
   length (q s) \<le> maxQueueSize s \<and> maxQueueSize s = m"
  using exec_q_bound[of P tf es "(AsyncFileLogger_ctor P p env d0)\<lparr>maxQueueSize := m\<rparr>" s]
  by simp

theorem queue_never_exceeds_maxQueueSize_witness:
  "exec demo_policy demo_time scenario_A_submit small_logger = Some after_submit
   \<and> length (q after_submit) \<le> maxQueueSize after_submit
   \<and> maxQueueSize after_submit = 2"
  using queue_never_exceeds_maxQueueSize [OF scenario_A_submitted [unfolded small_logger_def]]
    scenario_A_submitted
  by blast

subsection \<open>First in, first out\<close>

text \<open>
  Claim C4, amended. One producer calls \<^verbatim>\<open>log\<close> N times and then destroys the logger:
  the calls are the \<open>Log\<close> events of \<open>es1\<close>, none follows the entry into the destructor, and
  the worker runs whenever the schedule lets it. When no call found the queue full and the
  sink works, the destructor can return, and whenever it has returned the disk holds,
  after what it held before, exactly the N records of the N calls, in the order of the
  calls. When no message and no formatted timestamp contains a newline, these are exactly
  N lines, the lines of the N calls in the order of the calls.
\<close>

theorem single_producer_fifo:
  assumes e1: "exec P tf es1 ((AsyncFileLogger_ctor P p env d0)\<lparr>maxQueueSize := m\<rparr>) = Some s1"
    and a1: "dtor s1 = D_alive"
    and ok1: "list_all sink_ok es1"
    and no: "enqueued P tf es1 ((AsyncFileLogger_ctor P p env d0)\<lparr>maxQueueSize := m\<rparr>) = logged es1"
  shows "(\<exists>es2 s2. exec P tf (Dtor # es2) s1 = Some s2 \<and> dtor s2 = D_joined \<and>
                   list_all sink_ok es2 \<and> logged es2 = [])
       \<and> (\<forall>es2 s2. exec P tf (Dtor # es2) s1 = Some s2 \<and> dtor s2 = D_joined \<and>
                   list_all sink_ok es2 \<and> logged es2 = [] \<longrightarrow>
            persisted (disk s2) = persisted d0 @ concat (map (format_record tf) (logged es1)))
       \<and> ((\<forall>it \<in> set (logged es1). CHR 0x0A \<notin> set (tf (ts it)) \<and> CHR 0x0A \<notin> set (message it)) \<longrightarrow>
            text_lines (concat (map (format_record tf) (logged es1))) =
              map (\<lambda>it. ''['' @ tf (ts it) @ ''] '' @ message it) (logged es1)
            \<and> length (text_lines (concat (map (format_record tf) (logged es1)))) = length (logged es1))"
proof (intro conjI)
  have w1: "coherent s1" by (rule exec_coherent[OF e1 ctor_coherent])
  from shutdown_returns_ok[OF w1 a1, of P tf]
  show "\<exists>es2 s2. exec P tf (Dtor # es2) s1 = Some s2 \<and> dtor s2 = D_joined \<and>
                 list_all sink_ok es2 \<and> logged es2 = []" .
next
  show "\<forall>es2 s2. exec P tf (Dtor # es2) s1 = Some s2 \<and> dtor s2 = D_joined \<and>
                   list_all sink_ok es2 \<and> logged es2 = [] \<longrightarrow>
            persisted (disk s2) = persisted d0 @ concat (map (format_record tf) (logged es1))"
  proof (intro allI impI)
  fix es2 s2
  assume h: "exec P tf (Dtor # es2) s1 = Some s2 \<and> dtor s2 = D_joined \<and>
             list_all sink_ok es2 \<and> logged es2 = []"
  let ?s0 = "(AsyncFileLogger_ctor P p env d0)\<lparr>maxQueueSize := m\<rparr>"
  from h have e2: "exec P tf (Dtor # es2) s1 = Some s2" and j2: "dtor s2 = D_joined"
    and ok: "list_all sink_ok (es1 @ es2)" and nl: "logged es2 = []"
    using ok1 by simp_all
  have "enqueued P tf (Dtor # es2) s1 = []"
    using enqueued_no_log[of "Dtor # es2"] nl by simp
  with shutdown_drains(1)[OF e1 a1 e2 j2 ok ctor_healthy ctor_coherent] no
  show "persisted (disk s2) = persisted d0 @ concat (map (format_record tf) (logged es1))"
    by (auto simp: ctor_text ctor_outstanding records_def)
  qed
next
  show "(\<forall>it \<in> set (logged es1). CHR 0x0A \<notin> set (tf (ts it)) \<and> CHR 0x0A \<notin> set (message it)) \<longrightarrow>
            text_lines (concat (map (format_record tf) (logged es1))) =
              map (\<lambda>it. ''['' @ tf (ts it) @ ''] '' @ message it) (logged es1)
            \<and> length (text_lines (concat (map (format_record tf) (logged es1)))) = length (logged es1)"
  proof
    assume f: "\<forall>it \<in> set (logged es1). CHR 0x0A \<notin> set (tf (ts it)) \<and> CHR 0x0A \<notin> set (message it)"
    have rl: "record_line tf = (\<lambda>it. ''['' @ tf (ts it) @ ''] '' @ message it)"
      by (rule ext) (simp add: record_line_def)
    from text_lines_records[OF f]
    have "text_lines (concat (map (format_record tf) (logged es1))) =
              map (\<lambda>it. ''['' @ tf (ts it) @ ''] '' @ message it) (logged es1)"
      by (simp add: records_def rl)
    then show "text_lines (concat (map (format_record tf) (logged es1))) =
              map (\<lambda>it. ''['' @ tf (ts it) @ ''] '' @ message it) (logged es1)
            \<and> length (text_lines (concat (map (format_record tf) (logged es1)))) = length (logged es1)"
      by simp
  qed
qed

theorem single_producer_fifo_witness:
  "exec demo_policy demo_time (take 2 scenario_A_submit @ scenario_A_drain) small_logger = Some after_drain
   \<and> (\<exists>es2 s2. exec demo_policy demo_time (Dtor # es2) after_drain = Some s2 \<and> dtor s2 = D_joined \<and>
         list_all sink_ok es2 \<and> logged es2 = [])
   \<and> exec demo_policy demo_time (Dtor # scenario_A_shutdown) after_drain = Some after_shutdown
   \<and> dtor after_shutdown = D_joined
   \<and> logged scenario_A_shutdown = []
   \<and> logged (take 2 scenario_A_submit @ scenario_A_drain) =
       [\<lparr>message = ''a'', ts = 1\<rparr>, \<lparr>message = ''b'', ts = 2\<rparr>]
   \<and> persisted (disk after_shutdown) =
       persisted [] @ concat (map (format_record demo_time) (logged (take 2 scenario_A_submit @ scenario_A_drain)))
   \<and> text_lines (concat (map (format_record demo_time) (logged (take 2 scenario_A_submit @ scenario_A_drain)))) =
       map (\<lambda>it. ''['' @ demo_time (ts it) @ ''] '' @ message it)
         (logged (take 2 scenario_A_submit @ scenario_A_drain))
   \<and> length (text_lines (concat (map (format_record demo_time)
        (logged (take 2 scenario_A_submit @ scenario_A_drain))))) = 2"
proof -
  let ?es1 = "take 2 scenario_A_submit @ scenario_A_drain"
  have h1: "exec demo_policy demo_time ?es1
              ((AsyncFileLogger_ctor demo_policy demo_state (good 0) [])\<lparr>maxQueueSize := 2\<rparr>) =
            Some after_drain"
    by (simp add: eval_defs after_drain_def)
  have h2: "dtor after_drain = D_alive"
    by (simp add: after_drain_def)
  note h3 = scenario_A_destroyed
  have h4: "dtor after_shutdown = D_joined"
    by (simp add: after_shutdown_def)
  have h5: "list_all sink_ok ?es1"
    by (simp add: eval_defs)
  have h6: "list_all sink_ok scenario_A_shutdown" "logged scenario_A_shutdown = []"
    using scenario_A_shutdown_ok by simp_all
  have h7: "enqueued demo_policy demo_time ?es1
              ((AsyncFileLogger_ctor demo_policy demo_state (good 0) [])\<lparr>maxQueueSize := 2\<rparr>) =
            logged ?es1"
    by (simp add: eval_defs)
  have lg: "logged ?es1 = [\<lparr>message = ''a'', ts = 1\<rparr>, \<lparr>message = ''b'', ts = 2\<rparr>]"
    by (simp add: scenario_A_submit_def scenario_A_drain_def)
  have h8: "\<forall>it \<in> set (logged ?es1).
              CHR 0x0A \<notin> set (demo_time (ts it)) \<and> CHR 0x0A \<notin> set (message it)"
    unfolding lg by (simp add: demo_time_def)
  have n: "length (logged ?es1) = 2" unfolding lg by simp
  note r = single_producer_fifo [OF h1 h2 h5 h7]
  from r h3 h4 h6 have a: "persisted (disk after_shutdown) =
       persisted [] @ concat (map (format_record demo_time) (logged ?es1))"
    by blast
  from r h8 have b: "text_lines (concat (map (format_record demo_time) (logged ?es1))) =
       map (\<lambda>it. ''['' @ demo_time (ts it) @ ''] '' @ message it) (logged ?es1)"
    and c: "length (text_lines (concat (map (format_record demo_time) (logged ?es1)))) = length (logged ?es1)"
    by blast+
  from r have d: "\<exists>es2 s2. exec demo_policy demo_time (Dtor # es2) after_drain = Some s2 \<and>
         dtor s2 = D_joined \<and> list_all sink_ok es2 \<and> logged es2 = []"
    by blast
  from h1 [folded small_logger_def] d h3 h4 h6(2) lg a b c [unfolded n]
  show ?thesis by blast
qed

text \<open>
  The claim as stated fails where it counts lines: one producer makes two calls, the first
  with a message of two lines, none is dropped, the sink works and the destructor returns;
  the disk then holds the two records in the order of the calls, and they are three lines.
\<close>

theorem two_calls_make_three_lines:
  "exec demo_policy demo_time (newline_submit @ scenario_A_drain) small_logger = Some newline_drained
   \<and> dtor newline_drained = D_alive
   \<and> exec demo_policy demo_time (Dtor # scenario_A_shutdown) newline_drained = Some newline_destroyed
   \<and> dtor newline_destroyed = D_joined
   \<and> list_all sink_ok (newline_submit @ scenario_A_drain @ scenario_A_shutdown)
   \<and> logged scenario_A_shutdown = []
   \<and> enqueued demo_policy demo_time (newline_submit @ scenario_A_drain) small_logger =
       logged (newline_submit @ scenario_A_drain)
   \<and> length (logged (newline_submit @ scenario_A_drain)) = 2
   \<and> text_lines (persisted (disk newline_destroyed)) = [''[01] x'', ''y'', ''[02] z'']"
proof -
  have a: "dtor newline_drained = D_alive" "dtor newline_destroyed = D_joined"
    by (simp_all add: newline_drained_def newline_destroyed_def)
  have b: "list_all sink_ok (newline_submit @ scenario_A_drain @ scenario_A_shutdown)"
    using newline_run_sink_ok scenario_A_shutdown_ok by simp
  have c: "length (logged (newline_submit @ scenario_A_drain)) = 2"
    by (simp add: newline_submit_def scenario_A_drain_def)
  have d: "text_lines (persisted (disk newline_destroyed)) = [''[01] x'', ''y'', ''[02] z'']"
    by (simp add: newline_destroyed_def persisted_def text_lines_def)
  from newline_run_drained newline_run_destroyed newline_run_none_dropped scenario_A_shutdown_ok
    a b c d
  show ?thesis by simp
qed

subsection \<open>A submission to a full queue\<close>

text \<open>
  Claim C10. A call of \<^verbatim>\<open>log\<close> that finds the queue full returns with the whole state as
  it was: the queue, the stream, the current file name, the sleeping worker and the count
  of notifications of \<^verbatim>\<open>queue_cv\<close>. Whenever a call does notify (the count changes or the
  worker is woken), it has enqueued its item before; and a call that enqueues notifies once.
\<close>

theorem log_on_full_queue_changes_nothing:
  "(maxQueueSize s \<le> length (q s) \<longrightarrow> log msg t s = ((), s)) \<and>
   (notified (snd (log msg t s)) \<noteq> notified s \<or> worker (snd (log msg t s)) \<noteq> worker s \<longrightarrow>
      length (q s) < maxQueueSize s \<and> q (snd (log msg t s)) = q s @ [\<lparr>message = msg, ts = t\<rparr>]) \<and>
   (length (q s) < maxQueueSize s \<longrightarrow> notified (snd (log msg t s)) = notified s + 1)"
  by (simp add: log_def notify_one_def)

theorem log_on_full_queue_changes_nothing_witness:
  "maxQueueSize after_submit \<le> length (q after_submit)
   \<and> log ''c'' 3 after_submit = ((), after_submit)
   \<and> length (q small_logger) < maxQueueSize small_logger
   \<and> notified (snd (log ''a'' 1 small_logger)) = notified small_logger + 1"
proof -
  have full: "maxQueueSize after_submit \<le> length (q after_submit)"
    by (simp add: after_submit_def)
  have room: "length (q small_logger) < maxQueueSize small_logger"
    by (simp add: small_logger_def)
  from log_on_full_queue_changes_nothing [of after_submit "''c''" 3] full
    log_on_full_queue_changes_nothing [of small_logger "''a''" 1] room
  show ?thesis by blast
qed

subsection \<open>Overflow: the newest item is dropped\<close>

text \<open>
  Claim C3, amended. A call of \<^verbatim>\<open>log\<close> that finds \<open>maxQueueSize\<close> items in the queue
  discards its item: the queue keeps exactly the items it held, nothing is enqueued, and
  the call returns normally without a value (\<^verbatim>\<open>log\<close> is \<^verbatim>\<open>void\<close>; there is no
  \<^verbatim>\<open>submit\<close> that answers \<^verbatim>\<open>false\<close>). In Scenario A (capacity 2, submissions a, b, c while the
  worker does not run, then drain and destruction) the file holds the lines of a and b
  only.
\<close>

theorem full_queue_drops_newest:
  "(maxQueueSize s \<le> length (q s) \<longrightarrow>
      q (snd (log msg t s)) = q s \<and> enqueued1 (Log msg t) s = [] \<and> fst (log msg t s) = ())
   \<and> exec demo_policy demo_time (scenario_A_submit @ scenario_A_drain @ Dtor # scenario_A_shutdown)
        small_logger = Some after_shutdown
   \<and> file_content (disk after_shutdown) ''log.txt'' = ''[01] a\<newline>[02] b\<newline>''
   \<and> persisted (disk after_shutdown) = ''[01] a\<newline>[02] b\<newline>''"
proof -
  have "exec demo_policy demo_time (scenario_A_submit @ scenario_A_drain @ Dtor # scenario_A_shutdown)
        small_logger = Some after_shutdown"
    using scenario_A_before_shutdown scenario_A_destroyed exec_append[of demo_policy demo_time "scenario_A_submit @ scenario_A_drain" "Dtor # scenario_A_shutdown" small_logger]
    by simp
  then show ?thesis
    by (simp add: log_def enqueued1_def after_shutdown_def file_content_def persisted_def)
qed

theorem full_queue_drops_newest_witness:
  "maxQueueSize after_submit \<le> length (q after_submit)
   \<and> q (snd (log ''c'' 3 after_submit)) = q after_submit
   \<and> enqueued1 (Log ''c'' 3) after_submit = []
   \<and> fst (log ''c'' 3 after_submit) = ()"
proof -
  have full: "maxQueueSize after_submit \<le> length (q after_submit)"
    by (simp add: after_submit_def)
  from full_queue_drops_newest [of after_submit "''c''" 3] full
  show ?thesis by blast
qed

text \<open>
  The claim as stated fails on the result of the call: the call that drops c on the full
  queue and the call that enqueues a on the empty queue return the same value, the only
  value of \<^verbatim>\<open>void\<close>.
\<close>

theorem log_returns_no_outcome:
  "fst (log ''c'' 3 after_submit) = () \<and> fst (log ''a'' 1 small_logger) = ()
   \<and> length (q after_submit) = maxQueueSize after_submit
   \<and> length (q small_logger) < maxQueueSize small_logger"
  by (simp add: after_submit_def small_logger_def)

subsection \<open>Overflow is not counted\<close>

text \<open>
  Claim C6, amended. The logger keeps no count of dropped items: any number of calls of
  \<^verbatim>\<open>log\<close> on a full queue (while no other thread takes a step) returns normally each
  time and leaves the whole state exactly as it was, so nothing in the logger tells how
  many items were dropped, or that any was. No exception is raised for the loss.
\<close>

theorem drops_leave_no_trace:
  assumes "maxQueueSize s \<le> length (q s)" "dtor s \<noteq> D_joined"
  shows "exec P tf (map (\<lambda>c. Log (fst c) (snd c)) calls) s = Some s
         \<and> enqueued P tf (map (\<lambda>c. Log (fst c) (snd c)) calls) s = []"
  using assms by (induction calls) (simp_all add: step_def log_def enqueued1_def)

theorem drops_leave_no_trace_witness:
  "maxQueueSize after_submit \<le> length (q after_submit)
   \<and> dtor after_submit \<noteq> D_joined
   \<and> exec demo_policy demo_time (map (\<lambda>c. Log (fst c) (snd c)) [(''c'', 3), (''d'', 4)]) after_submit =
       Some after_submit
   \<and> enqueued demo_policy demo_time (map (\<lambda>c. Log (fst c) (snd c)) [(''c'', 3), (''d'', 4)]) after_submit = []"
proof -
  have full: "maxQueueSize after_submit \<le> length (q after_submit)"
    by (simp add: after_submit_def)
  have alive: "dtor after_submit \<noteq> D_joined"
    by (simp add: after_submit_def)
  from drops_leave_no_trace [OF full alive, of demo_policy demo_time "[(''c'', 3), (''d'', 4)]"] full alive
  show ?thesis by blast
qed

text \<open>
  The claim as stated fails in Scenario A: the state after the third submission, which is
  dropped, is the state after the second; no component of it is a counter that went from
  0 to 1.
\<close>

theorem third_submission_is_not_counted:
  "exec demo_policy demo_time scenario_A_submit small_logger =
   exec demo_policy demo_time (take 2 scenario_A_submit) small_logger"
  by (simp add: eval_defs)

subsection \<open>A sink that cannot be opened or written\<close>

text \<open>
  Claim C7, amended. When the file cannot be opened or the insertion fails, the worker
  reports nothing anywhere (no step of any thread writes to a standard stream), the item
  it holds leaves no trace in the sink, and the worker goes on: the unlocked part of
  \<^verbatim>\<open>run\<close> always completes and leads back to the lock with the queue as it was, a worker
  that is not asleep or finished always has a next step, it returns only when \<open>stopping\<close>
  is set and the queue is empty, it sleeps only while the queue is empty, and in every
  reachable state the destructor can still return by steps of the worker and the
  destructor alone, whatever the sink answers. What the sink holds after the unlocked part
  is what it held before, followed by the item's line if the insertion succeeded; when
  the \<^verbatim>\<open>close\<close> of a rotation fails, and only then, the buffer of the closed stream may be
  missing from it as well, which is reported nowhere either.
\<close>

theorem sink_failure_is_swallowed:
  "(worker s = W_io it \<longrightarrow>
      (\<exists>s'. step P tf (Work env) s = Some s' \<and> worker s' = W_relock \<and> q s' = q s \<and>
            std_streams s' = std_streams s \<and>
            (close_ok env \<longrightarrow>
               sink_text s' = sink_text s @
                 (if is_open (outFile s') \<and> \<not> failed (outFile s') then format_record tf it else [])) \<and>
            (sink_text s' = sink_text s @
                 (if is_open (outFile s') \<and> \<not> failed (outFile s') then format_record tf it else []) \<or>
             sink_text s' = persisted (disk s) @
                 (if is_open (outFile s') \<and> \<not> failed (outFile s') then format_record tf it else []))))
   \<and> (worker s \<noteq> W_blocked \<and> worker s \<noteq> W_done \<longrightarrow> step P tf (Work env) s \<noteq> None)
   \<and> (\<forall>s'. step P tf (Work env) s = Some s' \<and> worker s' = W_done \<longrightarrow> stopping s \<and> q s = [])
   \<and> (\<forall>es r. exec P tf es ((AsyncFileLogger_ctor P p env0 d0)\<lparr>maxQueueSize := m\<rparr>) = Some r \<longrightarrow>
         std_streams r = [] \<and> (worker r = W_blocked \<longrightarrow> q r = []) \<and>
         (dtor r \<noteq> D_joined \<longrightarrow>
            (\<exists>es' r'. set es' \<subseteq> {Dtor, Work env} \<and> exec P tf es' r = Some r' \<and> dtor r' = D_joined)))"
proof -
  have a: "worker s = W_io it \<longrightarrow>
      (\<exists>s'. step P tf (Work env) s = Some s' \<and> worker s' = W_relock \<and> q s' = q s \<and>
            std_streams s' = std_streams s \<and>
            (close_ok env \<longrightarrow>
               sink_text s' = sink_text s @
                 (if is_open (outFile s') \<and> \<not> failed (outFile s') then format_record tf it else [])) \<and>
            (sink_text s' = sink_text s @
                 (if is_open (outFile s') \<and> \<not> failed (outFile s') then format_record tf it else []) \<or>
             sink_text s' = persisted (disk s) @
                 (if is_open (outFile s') \<and> \<not> failed (outFile s') then format_record tf it else [])))"
  proof
    assume w: "worker s = W_io it"
    let ?s' = "(run_io P tf env it s)\<lparr>worker := W_relock\<rparr>"
    have st: "step P tf (Work env) s = Some ?s'"
      using w by (simp add: step_def run_step_def)
    have f: "outFile ?s' = outFile (run_io P tf env it s)" "sink_text ?s' = sink_text (run_io P tf env it s)"
      "worker ?s' = W_relock" "q ?s' = q s" "std_streams ?s' = std_streams s"
      by simp_all
    from run_io_text_any[of P tf env it s] st f
    show "\<exists>s'. step P tf (Work env) s = Some s' \<and> worker s' = W_relock \<and> q s' = q s \<and>
            std_streams s' = std_streams s \<and>
            (close_ok env \<longrightarrow>
               sink_text s' = sink_text s @
                 (if is_open (outFile s') \<and> \<not> failed (outFile s') then format_record tf it else [])) \<and>
            (sink_text s' = sink_text s @
                 (if is_open (outFile s') \<and> \<not> failed (outFile s') then format_record tf it else []) \<or>
             sink_text s' = persisted (disk s) @
                 (if is_open (outFile s') \<and> \<not> failed (outFile s') then format_record tf it else []))"
      by (intro exI[of _ ?s']) auto
  qed
  have b: "worker s \<noteq> W_blocked \<and> worker s \<noteq> W_done \<longrightarrow> step P tf (Work env) s \<noteq> None"
    by (cases "worker s") (simp_all add: step_def run_step_def)
  have c: "\<forall>s'. step P tf (Work env) s = Some s' \<and> worker s' = W_done \<longrightarrow> stopping s \<and> q s = []"
    by (cases "worker s")
      (auto simp: step_def run_step_def run_locked_def split: list.splits if_splits)
  have d: "\<forall>es r. exec P tf es ((AsyncFileLogger_ctor P p env0 d0)\<lparr>maxQueueSize := m\<rparr>) = Some r \<longrightarrow>
         std_streams r = [] \<and> (worker r = W_blocked \<longrightarrow> q r = []) \<and>
         (dtor r \<noteq> D_joined \<longrightarrow>
            (\<exists>es' r'. set es' \<subseteq> {Dtor, Work env} \<and> exec P tf es' r = Some r' \<and> dtor r' = D_joined))"
  proof (intro allI impI conjI)
    fix es r
    assume e: "exec P tf es ((AsyncFileLogger_ctor P p env0 d0)\<lparr>maxQueueSize := m\<rparr>) = Some r"
    note w = exec_coherent[OF e ctor_coherent]
    from exec_std_streams[OF e] show "std_streams r = []" by simp
    { assume "worker r = W_blocked" with w show "q r = []" by (simp add: coherent_def) }
    { assume "dtor r \<noteq> D_joined"
      from shutdown_returns[OF w this]
      show "\<exists>es' r'. set es' \<subseteq> {Dtor, Work env} \<and> exec P tf es' r = Some r' \<and> dtor r' = D_joined" . }
  qed
  from a b c d show ?thesis by blast
qed

theorem sink_failure_is_swallowed_witness:
  "worker broken_taken = W_io \<lparr>message = ''x'', ts = 1\<rparr>
   \<and> (\<exists>s'. step demo_policy demo_time (Work (broken 2)) broken_taken = Some s' \<and>
            worker s' = W_relock \<and> q s' = q broken_taken \<and>
            std_streams s' = std_streams broken_taken \<and>
            sink_text s' = sink_text broken_taken @
              (if is_open (outFile s') \<and> \<not> failed (outFile s')
               then format_record demo_time \<lparr>message = ''x'', ts = 1\<rparr> else []))"
proof -
  have w: "worker broken_taken = W_io \<lparr>message = ''x'', ts = 1\<rparr>"
    by (simp add: broken_taken_def)
  have c: "close_ok (broken 2)"
    by (simp add: broken_def)
  from sink_failure_is_swallowed
         [of broken_taken "\<lparr>message = ''x'', ts = 1\<rparr>" demo_policy demo_time "broken 2"] w c
  show ?thesis by blast
qed

text \<open>
  The claim as stated fails where it says that the failure is logged to a fallback
  channel: the logger is built while no file can be opened, one item is submitted and the
  worker handles it; the standard streams are as empty as before, the item is on no file
  and in no buffer, and the worker is back at the lock.
\<close>

theorem sink_failure_not_reported:
  "map_option (\<lambda>s. (std_streams s, persisted (disk s), pending (outFile s), q s, worker s))
     (exec demo_policy demo_time broken_run broken_logger) = Some ([], [], [], [], W_relock)"
  by (simp add: eval_defs broken_logger_def broken_run_def)

subsection \<open>The format of a record\<close>




subsection \<open>Item by item, or the whole queue at once\<close>

text \<open>
  Claim C9, amended. The worker of the source removes the queued items one per critical
  section, in FIFO order: it pops one item, writes it without the lock and takes the lock
  again. When no submission arrives during the drain, doing this for the queue's items
  leads to exactly the state reached by removing the whole queue in one critical section
  (\<open>drain\<close>) and then writing the batch in order, and the items handed to the insertion
  statement are the queue's items in FIFO order.
\<close>

theorem per_item_loop_refines_drain:
  assumes "worker s = W_relock" "length envs = length (q s)"
  shows "exec P tf (per_item envs) s = Some (consume_batch P tf envs s)
         \<and> processed P tf (per_item envs) s = fst (drain s)"
  using assms
proof (induction envs arbitrary: s)
  case Nil
  then show ?case by (simp add: consume_batch_def drain_def)
next
  case (Cons env envs)
  then obtain it rest where qs: "q s = it # rest" by (cases "q s") auto
  define sa where "sa = s\<lparr>q := rest, worker := W_io it\<rparr>"
  define sb where "sb = (run_io P tf env it sa)\<lparr>worker := W_relock\<rparr>"
  have st1: "step P tf (Work env) s = Some sa"
    using Cons.prems(1) qs by (simp add: step_def run_step_def run_locked_def sa_def)
  have st2: "step P tf (Work env) sa = Some sb"
    by (simp add: step_def run_step_def sa_def sb_def)
  have wb: "worker sb = W_relock" by (simp add: sb_def)
  have qb: "q sb = rest" by (simp add: sb_def sa_def)
  have lb: "length envs = length (q sb)" using Cons.prems(2) qs qb by simp
  note ih = Cons.IH[OF wb lb]
  have sbq: "sb\<lparr>q := []\<rparr> = (run_io P tf env it (s\<lparr>q := []\<rparr>))\<lparr>worker := W_relock\<rparr>"
    by (simp add: sb_def sa_def run_io_commute)
  have cb: "consume_batch P tf envs sb = consume_batch P tf (env # envs) s"
    by (simp add: consume_batch_def drain_def qb qs sbq write_items_worker)
  have p1: "processed1 (Work env) s = []" using Cons.prems(1) by (simp add: processed1_def)
  have p2: "processed1 (Work env) sa = [it]" by (simp add: processed1_def sa_def)
  show ?case
    using st1 st2 ih cb p1 p2 qs qb by (simp add: drain_def)
qed

theorem per_item_loop_refines_drain_witness:
  "worker (after_submit\<lparr>worker := W_relock\<rparr>) = W_relock
   \<and> length [good 3, good 3] = length (q (after_submit\<lparr>worker := W_relock\<rparr>))
   \<and> exec demo_policy demo_time (per_item [good 3, good 3]) (after_submit\<lparr>worker := W_relock\<rparr>) =
       Some (consume_batch demo_policy demo_time [good 3, good 3] (after_submit\<lparr>worker := W_relock\<rparr>))
   \<and> processed demo_policy demo_time (per_item [good 3, good 3]) (after_submit\<lparr>worker := W_relock\<rparr>) =
       fst (drain (after_submit\<lparr>worker := W_relock\<rparr>))
   \<and> consume_batch demo_policy demo_time [good 3, good 3] (after_submit\<lparr>worker := W_relock\<rparr>) =
       after_drain\<lparr>worker := W_relock\<rparr>"
proof -
  have w: "worker (after_submit\<lparr>worker := W_relock\<rparr>) = W_relock"
    by simp
  have l: "length [good 3, good 3] = length (q (after_submit\<lparr>worker := W_relock\<rparr>))"
    by (simp add: after_submit_def)
  have c: "consume_batch demo_policy demo_time [good 3, good 3] (after_submit\<lparr>worker := W_relock\<rparr>) =
       after_drain\<lparr>worker := W_relock\<rparr>"
    by (simp add: consume_batch_def drain_def eval_defs after_submit_def after_drain_def)
  from per_item_loop_refines_drain [OF w l, of demo_policy demo_time] w l c
  show ?thesis by blast
qed

text \<open>
  The claim as stated fails when submissions arrive during the drain. The queue of
  capacity 2 holds a and b, the worker begins to empty it, then c and d are submitted.
  The source's worker has popped only a by then: c finds room, d is dropped, and a, b, c
  are written. A consumer that removes the whole queue in one critical section writes
  a, b, c, d or a, b, d or a, b, as it removes the queue before, between or after the two
  submissions, and never a, b, c.
\<close>

theorem one_section_drain_accepts_more:
  "map_option sink_text (exec demo_policy demo_time late_arrivals_code after_submit) =
     Some ''[01] a\<newline>[02] b\<newline>[03] c\<newline>''
   \<and> map_option q (exec demo_policy demo_time late_arrivals_code after_submit) = Some []
   \<and> sink_text (spec_exec demo_policy demo_time drain_before after_submit) =
     ''[01] a\<newline>[02] b\<newline>[03] c\<newline>[03] d\<newline>''
   \<and> sink_text (spec_exec demo_policy demo_time drain_between after_submit) =
     ''[01] a\<newline>[02] b\<newline>[03] d\<newline>''
   \<and> sink_text (spec_exec demo_policy demo_time drain_after after_submit) =
     ''[01] a\<newline>[02] b\<newline>''"
  by (simp add: eval_defs after_submit_def late_arrivals_code_def drain_before_def
      drain_between_def drain_after_def consume_batch_def drain_def sink_text_def)

subsection \<open>Rotation after every K items\<close>

text \<open>
  Claim C5. The logger is constructed with the policy that requests rotation after every
  \<open>K\<close> items, on sinks \<open>name 0\<close>, \<open>name 1\<close>, \<open>\<dots>\<close> that are distinct and hold nothing
  yet; N items are submitted, none is dropped, the sink works (every open, insertion,
  \<^verbatim>\<open>flush\<close> and \<^verbatim>\<open>close\<close> succeeds), and the logger is destroyed. Then the destructor can
  return, and whenever it has returned sink \<open>name i\<close> holds exactly the records of the items
  \<open>i * K, \<dots>, i * K + K - 1\<close> of the submission order (as far as there are any): \<open>K\<close>
  items in every sink but the last one used, at most \<open>K\<close> in that one; the sinks that
  received items are the first \<open>(N + K - 1) div K\<close>, that is ceil(N/K), and that many were
  opened (one, the constructor's, when N = 0). With K = 5 and N = 12 these are three
  sinks with 5, 5 and 2 items.
\<close>

theorem rotation_every_K:
  assumes K: "0 < K" and inj: "inj name"
    and fresh: "\<forall>i. file_content d0 (name i) = []"
    and op0: "can_open env (name 0)"
    and e1: "exec (EveryKPolicy K name) tf es1
               ((AsyncFileLogger_ctor (EveryKPolicy K name) EveryK_init env d0)\<lparr>maxQueueSize := m\<rparr>) = Some s1"
    and a1: "dtor s1 = D_alive"
    and ok1: "list_all sink_ok es1"
    and no: "enqueued (EveryKPolicy K name) tf es1
               ((AsyncFileLogger_ctor (EveryKPolicy K name) EveryK_init env d0)\<lparr>maxQueueSize := m\<rparr>) = logged es1"
  shows "(\<exists>es2 s2. exec (EveryKPolicy K name) tf (Dtor # es2) s1 = Some s2 \<and> dtor s2 = D_joined \<and>
                   list_all sink_ok es2 \<and> logged es2 = [])
       \<and> (\<forall>es2 s2. exec (EveryKPolicy K name) tf (Dtor # es2) s1 = Some s2 \<and> dtor s2 = D_joined \<and>
                   list_all sink_ok es2 \<and> logged es2 = [] \<longrightarrow>
            (\<forall>i. file_content (disk s2) (name i) = records tf (take K (drop (i * K) (logged es1))))
            \<and> opened (rotationPolicy s2) = max 1 ((length (logged es1) + K - 1) div K))
       \<and> (\<forall>i. length (take K (drop (i * K) (logged es1))) = min K (length (logged es1) - i * K))
       \<and> {i. take K (drop (i * K) (logged es1)) \<noteq> []} = {..< (length (logged es1) + K - 1) div K}"
proof (intro conjI)
  have w1: "coherent s1" by (rule exec_coherent[OF e1 ctor_coherent])
  from shutdown_returns_ok[OF w1 a1, of "EveryKPolicy K name" tf]
  show "\<exists>es2 s2. exec (EveryKPolicy K name) tf (Dtor # es2) s1 = Some s2 \<and> dtor s2 = D_joined \<and>
                 list_all sink_ok es2 \<and> logged es2 = []" .
next
  show "\<forall>i. length (take K (drop (i * K) (logged es1))) = min K (length (logged es1) - i * K)"
    by (simp add: min.commute)
next
  have "\<And>i. take K (drop (i * K) (logged es1)) \<noteq> [] \<longleftrightarrow> i * K < length (logged es1)"
    using K by auto
  then show "{i. take K (drop (i * K) (logged es1)) \<noteq> []} = {..< (length (logged es1) + K - 1) div K}"
    using chunk_index[OF K, of _ "length (logged es1)"] by (simp add: lessThan_def)
next
  show "\<forall>es2 s2. exec (EveryKPolicy K name) tf (Dtor # es2) s1 = Some s2 \<and> dtor s2 = D_joined \<and>
                   list_all sink_ok es2 \<and> logged es2 = [] \<longrightarrow>
            (\<forall>i. file_content (disk s2) (name i) = records tf (take K (drop (i * K) (logged es1))))
            \<and> opened (rotationPolicy s2) = max 1 ((length (logged es1) + K - 1) div K)"
  proof (intro allI impI)
  fix es2 s2
  assume h: "exec (EveryKPolicy K name) tf (Dtor # es2) s1 = Some s2 \<and> dtor s2 = D_joined \<and>
             list_all sink_ok es2 \<and> logged es2 = []"
  from h have e2: "exec (EveryKPolicy K name) tf (Dtor # es2) s1 = Some s2"
    and j2: "dtor s2 = D_joined" and ok: "list_all sink_ok (es1 @ es2)" and nl: "logged es2 = []"
    using ok1 by simp_all
  let ?P = "EveryKPolicy K name"
  let ?s0 = "(AsyncFileLogger_ctor ?P EveryK_init env d0)\<lparr>maxQueueSize := m\<rparr>"
  have w1: "coherent s1" by (rule exec_coherent[OF e1 ctor_coherent])
  have w2: "coherent s2" by (rule exec_coherent[OF e2 w1])
  from w1 a1 have nd: "worker s1 \<noteq> W_done" by (auto simp: coherent_def)
  from w2 j2 have d2: "worker s2 = W_done" by (auto simp: coherent_def)
  have nl': "enqueued ?P tf (Dtor # es2) s1 = []"
    using enqueued_no_log[of "Dtor # es2"] nl by simp
  have pr: "processed ?P tf (es1 @ Dtor # es2) ?s0 = logged es1"
    using processed_all[OF e1 nd e2 d2 nl'] no by (simp add: ctor_outstanding)
  have e: "exec ?P tf (es1 @ Dtor # es2) ?s0 = Some s2"
    using e1 e2 by (simp add: exec_append)
  from ok have ok': "list_all sink_ok (es1 @ Dtor # es2)" by simp
  have inv: "rot_inv K name tf (logged es1) s2"
    using exec_rot_inv[OF K inj e ok' ctor_rot_inv[OF fresh op0]] pr by simp
  from inv d2 have cl: "\<not> is_open (outFile s2)" by (simp add: rot_inv_def)
  from inv have "\<forall>i. sink_content s2 (name i) = records tf (take K (drop (i * K) (logged es1)))"
    by (simp add: rot_inv_def)
  with cl have a: "\<forall>i. file_content (disk s2) (name i) = records tf (take K (drop (i * K) (logged es1)))"
    by (simp add: sink_content_def)
  from inv have "1 \<le> opened (rotationPolicy s2)" "since (rotationPolicy s2) \<le> K"
    "length (logged es1) = (opened (rotationPolicy s2) - 1) * K + since (rotationPolicy s2)"
    "1 < opened (rotationPolicy s2) \<longrightarrow> 1 \<le> since (rotationPolicy s2)"
    by (simp_all add: rot_inv_def)
  from chunk_count[OF K this]
  have d: "opened (rotationPolicy s2) = max 1 ((length (logged es1) + K - 1) div K)" .
  from a d show "(\<forall>i. file_content (disk s2) (name i) = records tf (take K (drop (i * K) (logged es1))))
            \<and> opened (rotationPolicy s2) = max 1 ((length (logged es1) + K - 1) div K)"
    by blast
  qed
qed

theorem rotation_every_K_witness:
  "exec (EveryKPolicy 5 sink_name) demo_time (scenario_C_submit @ scenario_C_drain) scenario_C_logger =
     Some scenario_C_drained
   \<and> (\<exists>es2 s2. exec (EveryKPolicy 5 sink_name) demo_time (Dtor # es2) scenario_C_drained = Some s2 \<and>
         dtor s2 = D_joined \<and> list_all sink_ok es2 \<and> logged es2 = [])
   \<and> exec (EveryKPolicy 5 sink_name) demo_time (Dtor # scenario_A_shutdown) scenario_C_drained =
     Some scenario_C_destroyed
   \<and> dtor scenario_C_destroyed = D_joined
   \<and> length (logged (scenario_C_submit @ scenario_C_drain)) = 12
   \<and> file_content (disk scenario_C_destroyed) (sink_name 0) =
       ''[01] a\<newline>[01] b\<newline>[01] c\<newline>[01] d\<newline>[01] e\<newline>''
   \<and> file_content (disk scenario_C_destroyed) (sink_name 1) =
       ''[01] f\<newline>[02] g\<newline>[02] h\<newline>[02] i\<newline>[02] j\<newline>''
   \<and> file_content (disk scenario_C_destroyed) (sink_name 2) = ''[02] k\<newline>[02] l\<newline>''
   \<and> file_content (disk scenario_C_destroyed) (sink_name 3) = []
   \<and> {i. take 5 (drop (i * 5) (logged (scenario_C_submit @ scenario_C_drain))) \<noteq> []} = {..<3}
   \<and> opened (rotationPolicy scenario_C_destroyed) = 3"
proof -
  let ?es1 = "scenario_C_submit @ scenario_C_drain"
  have K: "0 < (5::nat)" by simp
  have fresh: "\<forall>i. file_content [] (sink_name i) = []" by (simp add: file_content_def)
  have op0: "can_open (good 0) (sink_name 0)" by (simp add: good_def)
  have a1: "dtor scenario_C_drained = D_alive" by (simp add: scenario_C_drained_def)
  have j2: "dtor scenario_C_destroyed = D_joined" by (simp add: scenario_C_destroyed_def)
  have ok: "list_all sink_ok ?es1"
    by (simp add: eval_defs scenario_C_defs list_all_iff)
  have sh: "list_all sink_ok scenario_A_shutdown" "logged scenario_A_shutdown = []"
    using scenario_A_shutdown_ok by simp_all
  note r = rotation_every_K [OF K sink_name_inj fresh op0
      scenario_C_queue_drained [unfolded scenario_C_logger_def] a1 ok
      scenario_C_none_dropped [unfolded scenario_C_logger_def]]
  from r have ex: "\<exists>es2 s2. exec (EveryKPolicy 5 sink_name) demo_time (Dtor # es2) scenario_C_drained = Some s2 \<and>
         dtor s2 = D_joined \<and> list_all sink_ok es2 \<and> logged es2 = []"
    by blast
  from r scenario_C_logger_destroyed j2 sh have f: "\<And>i. file_content (disk scenario_C_destroyed) (sink_name i) =
      records demo_time (take 5 (drop (i * 5) (logged ?es1)))"
    by blast
  have f0: "file_content (disk scenario_C_destroyed) (sink_name 0) =
       ''[01] a\<newline>[01] b\<newline>[01] c\<newline>[01] d\<newline>[01] e\<newline>''"
    unfolding f[of 0] scenario_C_logged by (simp add: records_def format_record_def demo_time_def)
  have f1: "file_content (disk scenario_C_destroyed) (sink_name 1) =
       ''[01] f\<newline>[02] g\<newline>[02] h\<newline>[02] i\<newline>[02] j\<newline>''"
    unfolding f[of 1] scenario_C_logged by (simp add: records_def format_record_def demo_time_def)
  have f2: "file_content (disk scenario_C_destroyed) (sink_name 2) = ''[02] k\<newline>[02] l\<newline>''"
    unfolding f[of 2] scenario_C_logged by (simp add: records_def format_record_def demo_time_def)
  have f3: "file_content (disk scenario_C_destroyed) (sink_name 3) = []"
    unfolding f[of 3] scenario_C_logged by (simp add: records_def)
  have n: "length (logged ?es1) = 12" unfolding scenario_C_logged by simp
  from r scenario_C_logger_destroyed j2 sh
  have "{i. take 5 (drop (i * 5) (logged ?es1)) \<noteq> []} = {..< (length (logged ?es1) + 5 - 1) div 5}"
    and "opened (rotationPolicy scenario_C_destroyed) = max 1 ((length (logged ?es1) + 5 - 1) div 5)"
    by blast+
  then have c: "{i. take 5 (drop (i * 5) (logged ?es1)) \<noteq> []} = {..<3}"
    and o: "opened (rotationPolicy scenario_C_destroyed) = 3"
    unfolding n by simp_all
  from scenario_C_queue_drained ex scenario_C_logger_destroyed j2 n f0 f1 f2 f3 c o
  show ?thesis by blast
qed


end
